theory Spec2Isabelle
  imports Complex_Main "HOL-Library.AList"
begin

section \<open>Grid cells and insertion-ordered containers\<close>

text \<open>
  A grid cell is a pair of coordinates. In the source they are JavaScript numbers that
  hold small integers (the grid has 48 by 32 cells); the model takes them as integers.
  The source keys its maps and sets by the
  string \<^verbatim>\<open>`${gridX},${gridY}`\<close>; on integer coordinates that string determines the pair
  and \<^verbatim>\<open>split(',').map(Number)\<close> reads the pair back, so the model uses the pair itself
  as the key.

  A JavaScript \<^verbatim>\<open>Map\<close> iterates in insertion order, \<^verbatim>\<open>set\<close> on a present key keeps the
  key's place, \<^verbatim>\<open>set\<close> on a new key appends, and \<^verbatim>\<open>delete\<close> removes the entry. That is an
  association list with \<^const>\<open>map_of\<close>, \<^const>\<open>AList.update\<close> and \<^const>\<open>AList.delete\<close>.
  A JavaScript \<^verbatim>\<open>Set\<close> is the same with keys only.
\<close>

type_synonym cell = "int \<times> int"

definition Map_has :: "'k \<Rightarrow> ('k \<times> 'v) list \<Rightarrow> bool" where
  "Map_has k m = (map_of m k \<noteq> None)"

definition Set_add :: "'a \<Rightarrow> 'a list \<Rightarrow> 'a list" where
  "Set_add k s = (if k \<in> set s then s else s @ [k])"

definition Set_delete :: "'a \<Rightarrow> 'a list \<Rightarrow> 'a list" where
  "Set_delete k s = removeAll k s"

section \<open>Road: the segment graph (entities/Road)\<close>

text \<open>
  The shape \<^verbatim>\<open>{ gridX: number; gridY: number }\<close> that road segments, houses and
  destinations share.
\<close>

record GridPos =
  gridX :: int
  gridY :: int

record RoadSegment = GridPos +
  neighbors :: "cell list"

type_synonym Road = "(cell \<times> RoadSegment) list"

definition emptyRoad :: Road where
  "emptyRoad = []"

definition directions :: "(int \<times> int) list" where
  "directions = [(0, -1), (1, 0), (0, 1), (-1, 0)]"

text \<open>
  One turn of the loop over \<^verbatim>\<open>directions\<close> in \<^verbatim>\<open>addSegment\<close>: when the cell in that
  direction is occupied, the new segment records it and the occupied segment, which lives
  in the map, records the new key.
\<close>

fun link :: "cell \<Rightarrow> RoadSegment \<times> Road \<Rightarrow> int \<times> int \<Rightarrow> RoadSegment \<times> Road" where
  "link key (segment, segments) (dx, dy) =
     (let neighborKey = (fst key + dx, snd key + dy) in
      case map_of segments neighborKey of
        None \<Rightarrow> (segment, segments)
      | Some neighbor \<Rightarrow>
          (segment\<lparr>neighbors := Set_add neighborKey (neighbors segment)\<rparr>,
           AList.update neighborKey
             (neighbor\<lparr>neighbors := Set_add key (neighbors neighbor)\<rparr>) segments))"

definition addSegment :: "Road \<Rightarrow> int \<Rightarrow> int \<Rightarrow> bool \<times> Road" where
  "addSegment road x y =
     (let key = (x, y) in
      if Map_has key road then (False, road)
      else
        let segment = \<lparr>gridX = x, gridY = y, neighbors = []\<rparr>;
            linked = foldl (link key) (segment, road) directions
        in (True, AList.update key (fst linked) (snd linked)))"

text \<open>One turn of the loop over the removed segment's neighbours in \<^verbatim>\<open>removeSegment\<close>.\<close>

definition unlink :: "cell \<Rightarrow> Road \<Rightarrow> cell \<Rightarrow> Road" where
  "unlink key segments neighborKey =
     (case map_of segments neighborKey of
        None \<Rightarrow> segments
      | Some neighbor \<Rightarrow>
          AList.update neighborKey
            (neighbor\<lparr>neighbors := Set_delete key (neighbors neighbor)\<rparr>) segments)"

definition removeSegment :: "Road \<Rightarrow> int \<Rightarrow> int \<Rightarrow> bool \<times> Road" where
  "removeSegment road x y =
     (let key = (x, y) in
      case map_of road key of
        None \<Rightarrow> (False, road)
      | Some segment \<Rightarrow>
          (True, AList.delete key (foldl (unlink key) road (neighbors segment))))"

definition hasSegment :: "Road \<Rightarrow> int \<Rightarrow> int \<Rightarrow> bool" where
  "hasSegment road x y = Map_has (x, y) road"

definition getAllSegments :: "Road \<Rightarrow> RoadSegment list" where
  "getAllSegments road = map snd road"

definition getNeighbors :: "Road \<Rightarrow> int \<Rightarrow> int \<Rightarrow> cell list" where
  "getNeighbors road x y =
     (case map_of road (x, y) of None \<Rightarrow> [] | Some segment \<Rightarrow> neighbors segment)"

text \<open>
  Sequences of the two mutating operations, run from the constructor's empty map
  (\<^verbatim>\<open>clear\<close> gives that empty map back).
\<close>

datatype road_op = Add int int | Remove int int

fun apply_op :: "Road \<Rightarrow> road_op \<Rightarrow> Road" where
  "apply_op road (Add x y) = snd (addSegment road x y)"
| "apply_op road (Remove x y) = snd (removeSegment road x y)"

definition run_ops :: "road_op list \<Rightarrow> Road" where
  "run_ops ops = foldl apply_op emptyRoad ops"

text \<open>4-adjacency of two cells: they differ by one of the four directions.\<close>

definition adjacent :: "cell \<Rightarrow> cell \<Rightarrow> bool" where
  "adjacent a b = (\<bar>fst a - fst b\<bar> + \<bar>snd a - snd b\<bar> = 1)"

text \<open>
  The representation invariant of a road: keys are unique, every segment stores its own
  key's coordinates, and a segment's neighbour set holds exactly the occupied cells
  4-adjacent to it, each once.
\<close>

definition road_inv :: "Road \<Rightarrow> bool" where
  "road_inv road =
     (distinct (map fst road) \<and>
      (\<forall>k seg. map_of road k = Some seg \<longrightarrow>
         gridX seg = fst k \<and> gridY seg = snd k \<and> distinct (neighbors seg) \<and>
         set (neighbors seg) = {c. map_of road c \<noteq> None \<and> adjacent k c}))"

text \<open>The cell reached from \<open>key\<close> by one direction vector.\<close>

definition shift :: "cell \<Rightarrow> int \<times> int \<Rightarrow> cell" where
  "shift key d = (fst key + fst d, snd key + snd d)"

subsection \<open>Insertion-ordered sets\<close>

lemma Set_add_set [simp]: "set (Set_add k s) = insert k (set s)"
  by (auto simp: Set_add_def)

lemma Set_add_distinct [simp]: "distinct s \<Longrightarrow> distinct (Set_add k s)"
  by (simp add: Set_add_def)

lemma Set_delete_set [simp]: "set (Set_delete k s) = set s - {k}"
  by (auto simp: Set_delete_def)

lemma Set_delete_distinct [simp]: "distinct s \<Longrightarrow> distinct (Set_delete k s)"
  by (simp add: Set_delete_def distinct_removeAll)

lemma Set_add_idem [simp]: "Set_add k (Set_add k s) = Set_add k s"
  by (simp add: Set_add_def)

lemma Set_delete_idem [simp]: "Set_delete k (Set_delete k s) = Set_delete k s"
  by (simp add: Set_delete_def)


subsection \<open>What the two loops leave in the map\<close>

text \<open>
  Both loops keep the map's keys and their order; they change the neighbour sets of the
  segments they visit, and of no other.
\<close>

lemma link_fold:
  "foldl (link key) (seg, segs) ds = (seg', segs') \<Longrightarrow>
     map fst segs' = map fst segs \<and>
     (\<forall>k. map_of segs' k =
        map_option (\<lambda>s. if k \<in> shift key ` set ds
                         then s\<lparr>neighbors := Set_add key (neighbors s)\<rparr> else s) (map_of segs k)) \<and>
     set (neighbors seg') = set (neighbors seg) \<union> {c \<in> shift key ` set ds. map_of segs c \<noteq> None} \<and>
     gridX seg' = gridX seg \<and> gridY seg' = gridY seg \<and>
     (distinct (neighbors seg) \<longrightarrow> distinct (neighbors seg'))"
proof (induction ds arbitrary: seg segs)
  case Nil
  then show ?case by (auto simp: option.map_ident)
next
  case (Cons d ds)
  obtain dx dy where d: "d = (dx, dy)" by (cases d)
  let ?nk = "shift key d"
  show ?case
  proof (cases "map_of segs ?nk")
    case None
    then have st: "link key (seg, segs) d = (seg, segs)"
      by (simp add: d shift_def)
    from Cons.prems have "foldl (link key) (seg, segs) ds = (seg', segs')"
      by (simp add: st)
    from Cons.IH[OF this] None show ?thesis
      by (auto simp: map_option_case split: option.splits)
  next
    case (Some nb)
    let ?seg1 = "seg\<lparr>neighbors := Set_add ?nk (neighbors seg)\<rparr>"
    let ?segs1 = "AList.update ?nk (nb\<lparr>neighbors := Set_add key (neighbors nb)\<rparr>) segs"
    have st: "link key (seg, segs) d = (?seg1, ?segs1)"
      using Some by (simp add: d shift_def Let_def)
    from Cons.prems have "foldl (link key) (?seg1, ?segs1) ds = (seg', segs')"
      by (simp add: st)
    note ih = Cons.IH[OF this]
    have keys: "map fst ?segs1 = map fst segs"
      using Some by (simp add: update_keys map_of_eq_None_iff[symmetric] del: map_of_eq_None_iff)
    have mo: "\<And>k. map_of ?segs1 k = (if k = ?nk then Some (nb\<lparr>neighbors := Set_add key (neighbors nb)\<rparr>) else map_of segs k)"
      by (simp add: update_conv')
    show ?thesis
      using ih Some keys unfolding mo
      by (auto simp: map_option_case split: option.splits if_splits)
  qed
qed


lemma unlink_fold:
  "map fst (foldl (unlink key) segs ns) = map fst segs \<and>
   (\<forall>k. map_of (foldl (unlink key) segs ns) k =
      map_option (\<lambda>s. if k \<in> set ns
                       then s\<lparr>neighbors := Set_delete key (neighbors s)\<rparr> else s) (map_of segs k))"
proof (induction ns arbitrary: segs)
  case Nil
  then show ?case by (auto simp: option.map_ident)
next
  case (Cons n ns)
  show ?case
  proof (cases "map_of segs n")
    case None
    then have st: "unlink key segs n = segs" by (simp add: unlink_def)
    show ?thesis using Cons.IH[of segs] None
      by (auto simp: st map_option_case split: option.splits)
  next
    case (Some nb)
    let ?segs1 = "AList.update n (nb\<lparr>neighbors := Set_delete key (neighbors nb)\<rparr>) segs"
    have st: "unlink key segs n = ?segs1" using Some by (simp add: unlink_def)
    have keys: "map fst ?segs1 = map fst segs"
      using Some by (simp add: update_keys map_of_eq_None_iff[symmetric] del: map_of_eq_None_iff)
    have mo: "\<And>k. map_of ?segs1 k = (if k = n then Some (nb\<lparr>neighbors := Set_delete key (neighbors nb)\<rparr>) else map_of segs k)"
      by (simp add: update_conv')
    show ?thesis
      using Cons.IH[of ?segs1] Some keys unfolding foldl_Cons st mo
      by (auto simp: map_option_case split: option.splits if_splits)
  qed
qed

lemma adjacent_cases:
  "\<bar>kx - a\<bar> + \<bar>ky - b\<bar> = (1::int) \<Longrightarrow>
     a - kx = 0 \<and> b - ky = - 1 \<or> a - kx = 1 \<and> b - ky = 0 \<or>
     a - kx = 0 \<and> b - ky = 1 \<or> a - kx = - 1 \<and> b - ky = 0"
  by (simp add: abs_if split: if_splits; presburger)

lemma shift_directions: "shift key ` set directions = {c. adjacent key c}"
proof (rule set_eqI)
  fix c :: cell
  obtain a b where c: "c = (a, b)" by (cases c)
  show "c \<in> shift key ` set directions \<longleftrightarrow> c \<in> {c. adjacent key c}"
  proof
    assume "c \<in> shift key ` set directions"
    then obtain d where "d \<in> set directions" "c = shift key d" by blast
    then show "c \<in> {c. adjacent key c}"
      by (auto simp: shift_def directions_def adjacent_def)
  next
    assume "c \<in> {c. adjacent key c}"
    then have "\<bar>fst key - a\<bar> + \<bar>snd key - b\<bar> = 1" by (simp add: adjacent_def c)
    from adjacent_cases[OF this] have "(a - fst key, b - snd key) \<in> set directions"
      by (simp add: directions_def)
    then have "shift key (a - fst key, b - snd key) \<in> shift key ` set directions"
      by (rule imageI)
    then show "c \<in> shift key ` set directions" by (simp add: shift_def c)
  qed
qed

lemma adjacent_sym: "adjacent a b = adjacent b a"
  by (auto simp: adjacent_def)

lemma adjacent_irrefl [simp]: "\<not> adjacent a a"
  by (simp add: adjacent_def)


text \<open>What addSegment leaves in the map, for a key that was free.\<close>

lemma addSegment_map_of:
  assumes "map_of road (x, y) = None"
  shows "fst (addSegment road x y) = True"
    and "map fst (snd (addSegment road x y)) = map fst road @ [(x, y)]"
    and "\<exists>seg'. map_of (snd (addSegment road x y)) (x, y) = Some seg' \<and> gridX seg' = x \<and> gridY seg' = y \<and>
           distinct (neighbors seg') \<and>
           set (neighbors seg') = {c. map_of road c \<noteq> None \<and> adjacent (x, y) c}"
    and "k \<noteq> (x, y) \<Longrightarrow> map_of (snd (addSegment road x y)) k =
           map_option (\<lambda>s. if adjacent (x, y) k
                         then s\<lparr>neighbors := Set_add (x, y) (neighbors s)\<rparr> else s) (map_of road k)"
proof -
  let ?seg = "\<lparr>gridX = x, gridY = y, neighbors = []\<rparr>"
  obtain seg' segs' where f: "foldl (link (x, y)) (?seg, road) directions = (seg', segs')"
    by (cases "foldl (link (x, y)) (?seg, road) directions")
  note lf = link_fold[OF f, unfolded shift_directions]
  have res: "addSegment road x y = (True, AList.update (x, y) seg' segs')"
    using assms by (simp add: addSegment_def Map_has_def f Let_def)
  have notin0: "(x, y) \<notin> fst ` set road" using assms by (metis map_of_eq_None_iff)
  have notin: "(x, y) \<notin> fst ` set segs'"
  proof -
    note notin0
    moreover have "map fst segs' = map fst road" using lf by blast
    then have "set (map fst segs') = set (map fst road)" by simp
    then have "fst ` set segs' = fst ` set road" by (simp only: set_map)
    ultimately show ?thesis by simp
  qed
  show "fst (addSegment road x y) = True" by (simp add: res)
  show "map fst (snd (addSegment road x y)) = map fst road @ [(x, y)]"
    using notin notin0 lf by (simp add: res update_keys)
  show "\<exists>seg'. map_of (snd (addSegment road x y)) (x, y) = Some seg' \<and> gridX seg' = x \<and> gridY seg' = y \<and>
           distinct (neighbors seg') \<and>
           set (neighbors seg') = {c. map_of road c \<noteq> None \<and> adjacent (x, y) c}"
    using lf by (auto simp: res update_conv')
  show "map_of (snd (addSegment road x y)) k =
           map_option (\<lambda>s. if adjacent (x, y) k
                         then s\<lparr>neighbors := Set_add (x, y) (neighbors s)\<rparr> else s) (map_of road k)"
    if "k \<noteq> (x, y)"
  proof -
    have "map_of segs' k =
           map_option (\<lambda>s. if k \<in> {c. adjacent (x, y) c}
                         then s\<lparr>neighbors := Set_add (x, y) (neighbors s)\<rparr> else s) (map_of road k)"
      using lf by blast
    then show ?thesis using that by (simp add: res update_conv')
  qed
qed


lemma removeSegment_map_of:
  assumes "map_of road (x, y) = Some seg"
  shows "fst (removeSegment road x y) = True"
    and "map fst (snd (removeSegment road x y)) = removeAll (x, y) (map fst road)"
    and "map_of (snd (removeSegment road x y)) (x, y) = None"
    and "k \<noteq> (x, y) \<Longrightarrow> map_of (snd (removeSegment road x y)) k =
           map_option (\<lambda>s. if k \<in> set (neighbors seg)
                         then s\<lparr>neighbors := Set_delete (x, y) (neighbors s)\<rparr> else s) (map_of road k)"
proof -
  let ?segs' = "foldl (unlink (x, y)) road (neighbors seg)"
  have res: "removeSegment road x y = (True, AList.delete (x, y) ?segs')"
    using assms by (simp add: removeSegment_def Let_def)
  have keys: "map fst ?segs' = map fst road"
    using unlink_fold[of "(x, y)" road "neighbors seg"] by blast
  have mo: "\<And>k. map_of ?segs' k =
      map_option (\<lambda>s. if k \<in> set (neighbors seg)
                       then s\<lparr>neighbors := Set_delete (x, y) (neighbors s)\<rparr> else s) (map_of road k)"
    using unlink_fold[of "(x, y)" road "neighbors seg"] by blast
  show "fst (removeSegment road x y) = True" by (simp add: res)
  show "map fst (snd (removeSegment road x y)) = removeAll (x, y) (map fst road)"
    by (simp add: res delete_keys keys)
  show "map_of (snd (removeSegment road x y)) (x, y) = None"
    by (simp add: res delete_conv')
  show "map_of (snd (removeSegment road x y)) k =
           map_option (\<lambda>s. if k \<in> set (neighbors seg)
                         then s\<lparr>neighbors := Set_delete (x, y) (neighbors s)\<rparr> else s) (map_of road k)"
    if "k \<noteq> (x, y)"
    using that by (simp add: res delete_conv' mo)
qed

subsection \<open>The invariant holds after every sequence of operations\<close>

lemma road_inv_empty: "road_inv emptyRoad"
  by (simp add: road_inv_def emptyRoad_def)

lemma road_inv_addSegment:
  assumes inv: "road_inv road"
  shows "road_inv (snd (addSegment road x y))"
proof (cases "map_of road (x, y)")
  case (Some seg)
  then have "addSegment road x y = (False, road)"
    by (simp add: addSegment_def Map_has_def Let_def)
  with inv show ?thesis by simp
next
  case None
  let ?r = "snd (addSegment road x y)"
  note a = addSegment_map_of[OF None]
  have dom: "\<And>c. map_of ?r c \<noteq> None \<longleftrightarrow> c = (x, y) \<or> map_of road c \<noteq> None"
  proof -
    fix c show "map_of ?r c \<noteq> None \<longleftrightarrow> c = (x, y) \<or> map_of road c \<noteq> None"
      using a(3) a(4)[of c] by (cases "c = (x, y)") auto
  qed
  have d: "distinct (map fst ?r)"
  proof -
    have "(x, y) \<notin> set (map fst road)" using None by (metis map_of_eq_None_iff set_map)
    moreover have "distinct (map fst road)" using inv by (simp add: road_inv_def)
    ultimately show ?thesis by (simp add: a(2))
  qed
  have seg: "gridX s = fst k \<and> gridY s = snd k \<and> distinct (neighbors s) \<and>
         set (neighbors s) = {c. map_of ?r c \<noteq> None \<and> adjacent k c}"
    if ks: "map_of ?r k = Some s" for k s
  proof (cases "k = (x, y)")
    case True
    from a(3) ks True obtain "gridX s = x" "gridY s = y" "distinct (neighbors s)"
      "set (neighbors s) = {c. map_of road c \<noteq> None \<and> adjacent (x, y) c}" by auto
    then show ?thesis unfolding dom using True by auto
  next
    case False
    from a(4)[OF False] ks obtain s0 where s0: "map_of road k = Some s0"
      and s: "s = (if adjacent (x, y) k then s0\<lparr>neighbors := Set_add (x, y) (neighbors s0)\<rparr> else s0)"
      by (cases "map_of road k") auto
    from inv s0 have i0: "gridX s0 = fst k" "gridY s0 = snd k" "distinct (neighbors s0)"
      "set (neighbors s0) = {c. map_of road c \<noteq> None \<and> adjacent k c}"
      unfolding road_inv_def by blast+
    show ?thesis
    proof (cases "adjacent (x, y) k")
      case True
      then have "adjacent k (x, y)" by (simp add: adjacent_sym)
      then show ?thesis unfolding dom using i0 s True by auto
    next
      case False
      then have "\<not> adjacent k (x, y)" by (simp add: adjacent_sym)
      then show ?thesis unfolding dom using i0 s False by auto
    qed
  qed
  show ?thesis unfolding road_inv_def using d seg by blast
qed

lemma road_inv_removeSegment:
  assumes inv: "road_inv road"
  shows "road_inv (snd (removeSegment road x y))"
proof (cases "map_of road (x, y)")
  case None
  then have "removeSegment road x y = (False, road)"
    by (simp add: removeSegment_def Let_def)
  with inv show ?thesis by simp
next
  case (Some seg)
  let ?r = "snd (removeSegment road x y)"
  note a = removeSegment_map_of[OF Some]
  from inv Some have ns: "set (neighbors seg) = {c. map_of road c \<noteq> None \<and> adjacent (x, y) c}"
    unfolding road_inv_def by blast
  have dom: "\<And>c. map_of ?r c \<noteq> None \<longleftrightarrow> c \<noteq> (x, y) \<and> map_of road c \<noteq> None"
  proof -
    fix c show "map_of ?r c \<noteq> None \<longleftrightarrow> c \<noteq> (x, y) \<and> map_of road c \<noteq> None"
      using a(3) a(4)[of c] by (cases "c = (x, y)") auto
  qed
  have d: "distinct (map fst ?r)"
    using inv by (simp add: a(2) road_inv_def distinct_removeAll)
  have seg: "gridX s = fst k \<and> gridY s = snd k \<and> distinct (neighbors s) \<and>
         set (neighbors s) = {c. map_of ?r c \<noteq> None \<and> adjacent k c}"
    if ks: "map_of ?r k = Some s" for k s
  proof -
    from ks a(3) have kne: "k \<noteq> (x, y)" by auto
    from a(4)[OF kne] ks obtain s0 where s0: "map_of road k = Some s0"
      and s: "s = (if k \<in> set (neighbors seg) then s0\<lparr>neighbors := Set_delete (x, y) (neighbors s0)\<rparr> else s0)"
      by (cases "map_of road k") auto
    from inv s0 have i0: "gridX s0 = fst k" "gridY s0 = snd k" "distinct (neighbors s0)"
      "set (neighbors s0) = {c. map_of road c \<noteq> None \<and> adjacent k c}"
      unfolding road_inv_def by blast+
    show ?thesis
    proof (cases "k \<in> set (neighbors seg)")
      case True
      then show ?thesis unfolding dom using i0 s by auto
    next
      case False
      then have "\<not> adjacent (x, y) k" using ns s0 by auto
      then have "\<not> adjacent k (x, y)" by (simp add: adjacent_sym)
      then show ?thesis unfolding dom using i0 s False by auto
    qed
  qed
  show ?thesis unfolding road_inv_def using d seg by blast
qed

lemma road_inv_foldl: "road_inv road \<Longrightarrow> road_inv (foldl apply_op road ops)"
proof (induction ops arbitrary: road)
  case Nil
  then show ?case by simp
next
  case (Cons op ops)
  have "road_inv (apply_op road op)"
    using Cons.prems by (cases op) (simp_all add: road_inv_addSegment road_inv_removeSegment)
  then show ?case using Cons.IH by simp
qed

lemma road_inv_run_ops: "road_inv (run_ops ops)"
  unfolding run_ops_def by (rule road_inv_foldl[OF road_inv_empty])

lemma getNeighbors_iff:
  assumes "road_inv road"
  shows "b \<in> set (getNeighbors road (fst a) (snd a)) \<longleftrightarrow>
         hasSegment road (fst a) (snd a) \<and> hasSegment road (fst b) (snd b) \<and> adjacent a b"
proof (cases "map_of road a")
  case None
  then show ?thesis by (simp add: getNeighbors_def hasSegment_def Map_has_def)
next
  case (Some seg)
  with assms have "set (neighbors seg) = {c. map_of road c \<noteq> None \<and> adjacent a c}"
    unfolding road_inv_def by blast
  then show ?thesis using Some by (simp add: getNeighbors_def hasSegment_def Map_has_def)
qed


subsection \<open>The neighbour relation is the 4-adjacency of occupied cells\<close>

text \<open>
  Claim C2. After every sequence of \<^verbatim>\<open>addSegment\<close>/\<^verbatim>\<open>removeSegment\<close> calls on a fresh
  Road, a cell B is in the neighbour set of a cell A exactly when both are occupied and
  4-adjacent. Hence for occupied 4-adjacent A and B, A lists B if and only if B lists A,
  and no neighbour set holds a non-adjacent or unoccupied cell.
\<close>

theorem road_neighbors_exactly_adjacency:
  "(\<forall>ax ay cx cy.
      (cx, cy) \<in> set (getNeighbors (run_ops ops) ax ay) \<longleftrightarrow>
        hasSegment (run_ops ops) ax ay \<and> hasSegment (run_ops ops) cx cy \<and>
        adjacent (ax, ay) (cx, cy)) \<and>
   (\<forall>ax ay cx cy.
      hasSegment (run_ops ops) ax ay \<and> hasSegment (run_ops ops) cx cy \<and>
      adjacent (ax, ay) (cx, cy) \<longrightarrow>
        ((cx, cy) \<in> set (getNeighbors (run_ops ops) ax ay) \<longleftrightarrow>
         (ax, ay) \<in> set (getNeighbors (run_ops ops) cx cy))) \<and>
   (\<forall>ax ay b.
      b \<in> set (getNeighbors (run_ops ops) ax ay) \<longrightarrow>
        adjacent (ax, ay) b \<and> hasSegment (run_ops ops) (fst b) (snd b))"
proof -
  have iff: "\<And>a b. b \<in> set (getNeighbors (run_ops ops) (fst a) (snd a)) \<longleftrightarrow>
         hasSegment (run_ops ops) (fst a) (snd a) \<and> hasSegment (run_ops ops) (fst b) (snd b) \<and>
         adjacent a b"
    by (rule getNeighbors_iff[OF road_inv_run_ops])
  have c1: "\<And>ax ay cx cy. (cx, cy) \<in> set (getNeighbors (run_ops ops) ax ay) \<longleftrightarrow>
        hasSegment (run_ops ops) ax ay \<and> hasSegment (run_ops ops) cx cy \<and>
        adjacent (ax, ay) (cx, cy)"
    using iff[of "(cx, cy)" "(ax, ay)" for ax ay cx cy] by simp
  have c3: "\<And>ax ay b. b \<in> set (getNeighbors (run_ops ops) ax ay) \<Longrightarrow>
        adjacent (ax, ay) b \<and> hasSegment (run_ops ops) (fst b) (snd b)"
    using iff[of _ "(ax, ay)" for ax ay] by simp
  have c2: "\<And>ax ay cx cy. hasSegment (run_ops ops) ax ay \<and> hasSegment (run_ops ops) cx cy \<and>
      adjacent (ax, ay) (cx, cy) \<Longrightarrow>
        ((cx, cy) \<in> set (getNeighbors (run_ops ops) ax ay) \<longleftrightarrow>
         (ax, ay) \<in> set (getNeighbors (run_ops ops) cx cy))"
    unfolding c1 by (simp add: adjacent_sym)
  show ?thesis using c1 c2 c3 by blast
qed

theorem road_neighbors_exactly_adjacency_witness:
  "hasSegment (run_ops [Add 0 0, Add 1 0, Add 0 1, Remove 1 0, Add 5 5]) 0 0 \<and>
   hasSegment (run_ops [Add 0 0, Add 1 0, Add 0 1, Remove 1 0, Add 5 5]) 0 1 \<and>
   adjacent (0, 0) (0, 1) \<and>
   (0, 1) \<in> set (getNeighbors (run_ops [Add 0 0, Add 1 0, Add 0 1, Remove 1 0, Add 5 5]) 0 0) \<and>
   (0, 0) \<in> set (getNeighbors (run_ops [Add 0 0, Add 1 0, Add 0 1, Remove 1 0, Add 5 5]) 0 1) \<and>
   \<not> hasSegment (run_ops [Add 0 0, Add 1 0, Add 0 1, Remove 1 0, Add 5 5]) 1 0 \<and>
   (1, 0) \<notin> set (getNeighbors (run_ops [Add 0 0, Add 1 0, Add 0 1, Remove 1 0, Add 5 5]) 0 0)"
proof -
  let ?r = "run_ops [Add 0 0, Add 1 0, Add 0 1, Remove 1 0, Add 5 5]"
  have h: "hasSegment ?r 0 0" "hasSegment ?r 0 1" "\<not> hasSegment ?r 1 0"
    by code_simp+
  have a: "adjacent (0, 0) (0, 1)" by (simp add: adjacent_def)
  note t = road_neighbors_exactly_adjacency[of "[Add 0 0, Add 1 0, Add 0 1, Remove 1 0, Add 5 5]"]
  from t h a have "(0, 1) \<in> set (getNeighbors ?r 0 0)" by blast
  moreover from t h a have "(0, 0) \<in> set (getNeighbors ?r 0 1)"
    by (metis adjacent_sym)
  moreover from t h have "(1, 0) \<notin> set (getNeighbors ?r 0 0)" by blast
  ultimately show ?thesis using h a by blast
qed


subsection \<open>Adding a free cell and removing it again\<close>

lemma alist_eqI:
  "map fst xs = map fst ys \<Longrightarrow> distinct (map fst xs) \<Longrightarrow> map_of xs = map_of ys \<Longrightarrow> xs = ys"
proof (induction xs arbitrary: ys)
  case Nil
  then show ?case by simp
next
  case (Cons p xs)
  then obtain q ys' where ys: "ys = q # ys'" by (cases ys) auto
  from Cons.prems ys have k: "fst p = fst q" and ks: "map fst xs = map fst ys'" by auto
  from Cons.prems(3) have "map_of (p # xs) (fst p) = map_of ys (fst p)" by (rule fun_cong)
  then have v: "snd p = snd q" using k ys by simp
  have pq: "p = q" using k v by (simp add: prod_eq_iff)
  have "map_of xs k' = map_of ys' k'" for k'
  proof (cases "k' = fst p")
    case True
    from Cons.prems(2) have "fst p \<notin> fst ` set xs" by simp
    then have "map_of xs (fst p) = None" by (simp add: map_of_eq_None_iff)
    moreover have "fst p \<notin> fst ` set ys'" using Cons.prems(2) ks by (metis distinct.simps(2) list.simps(9) set_map)
    then have "map_of ys' (fst p) = None" by (simp add: map_of_eq_None_iff)
    ultimately show ?thesis using True by simp
  next
    case False
    from Cons.prems(3) have "map_of (p # xs) k' = map_of ys k'" by (rule fun_cong)
    then show ?thesis using False ys k by simp
  qed
  then have "map_of xs = map_of ys'" by (rule ext)
  with Cons.IH[of ys'] ks Cons.prems(2) have "xs = ys'" by simp
  then show ?case using pq ys by simp
qed

lemma Set_delete_add: "k \<notin> set s \<Longrightarrow> Set_delete k (Set_add k s) = s"
  by (simp add: Set_delete_def Set_add_def)

lemma add_remove_restores:
  assumes inv: "road_inv road" and free: "\<not> hasSegment road x y"
  shows "snd (removeSegment (snd (addSegment road x y)) x y) = road"
proof -
  from free have None: "map_of road (x, y) = None"
    by (simp add: hasSegment_def Map_has_def)
  let ?r1 = "snd (addSegment road x y)"
  let ?r2 = "snd (removeSegment ?r1 x y)"
  note a = addSegment_map_of[OF None]
  from a(3) obtain seg' where seg': "map_of ?r1 (x, y) = Some seg'"
    and ns: "set (neighbors seg') = {c. map_of road c \<noteq> None \<and> adjacent (x, y) c}" by blast
  note r = removeSegment_map_of[OF seg']
  have notin: "(x, y) \<notin> set (map fst road)" using None by (metis map_of_eq_None_iff set_map)
  have keys: "map fst ?r2 = map fst road"
    using notin by (simp add: r(2) a(2))
  have mo: "map_of ?r2 k = map_of road k" for k
  proof (cases "k = (x, y)")
    case True
    then show ?thesis using r(3) None by simp
  next
    case False
    show ?thesis
    proof (cases "map_of road k")
      case None
      then show ?thesis using r(4)[OF False] a(4)[OF False] by simp
    next
      case (Some s)
      from inv Some have sn: "set (neighbors s) = {c. map_of road c \<noteq> None \<and> adjacent k c}"
        unfolding road_inv_def by blast
      then have c: "(x, y) \<notin> set (neighbors s)" using None by simp
      show ?thesis
      proof (cases "adjacent (x, y) k")
        case True
        then have "k \<in> set (neighbors seg')" using ns Some by simp
        then show ?thesis using r(4)[OF False] a(4)[OF False] Some True c
          by (simp add: Set_delete_add)
      next
        case False
        then have "k \<notin> set (neighbors seg')" using ns by simp
        then show ?thesis using r(4)[OF \<open>k \<noteq> (x, y)\<close>] a(4)[OF \<open>k \<noteq> (x, y)\<close>] Some False
          by simp
      qed
    qed
  qed
  have "distinct (map fst ?r2)" using inv keys by (simp add: road_inv_def)
  then show ?thesis using keys mo alist_eqI[of ?r2 road] by blast
qed

text \<open>
  Claim C10. For every road state N produced by a sequence of \<^verbatim>\<open>addSegment\<close> and
  \<^verbatim>\<open>removeSegment\<close> calls and every cell c not occupied in N, \<^verbatim>\<open>addSegment(c)\<close>
  followed by \<^verbatim>\<open>removeSegment(c)\<close> gives back N: the same map in the same order, hence
  the same occupied cells and the same neighbour set for every cell.
\<close>

theorem add_then_remove_round_trip:
  "\<not> hasSegment (run_ops ops) x y \<longrightarrow>
     snd (removeSegment (snd (addSegment (run_ops ops) x y)) x y) = run_ops ops \<and>
     run_ops (ops @ [Add x y, Remove x y]) = run_ops ops \<and>
     (\<forall>cx cy. hasSegment (run_ops (ops @ [Add x y, Remove x y])) cx cy =
               hasSegment (run_ops ops) cx cy) \<and>
     (\<forall>cx cy. set (getNeighbors (run_ops (ops @ [Add x y, Remove x y])) cx cy) =
               set (getNeighbors (run_ops ops) cx cy))"
proof
  assume free: "\<not> hasSegment (run_ops ops) x y"
  have e: "snd (removeSegment (snd (addSegment (run_ops ops) x y)) x y) = run_ops ops"
    by (rule add_remove_restores[OF road_inv_run_ops free])
  have "run_ops (ops @ [Add x y, Remove x y]) =
        snd (removeSegment (snd (addSegment (run_ops ops) x y)) x y)"
    by (simp add: run_ops_def)
  with e have r: "run_ops (ops @ [Add x y, Remove x y]) = run_ops ops" by simp
  show "snd (removeSegment (snd (addSegment (run_ops ops) x y)) x y) = run_ops ops \<and>
     run_ops (ops @ [Add x y, Remove x y]) = run_ops ops \<and>
     (\<forall>cx cy. hasSegment (run_ops (ops @ [Add x y, Remove x y])) cx cy =
               hasSegment (run_ops ops) cx cy) \<and>
     (\<forall>cx cy. set (getNeighbors (run_ops (ops @ [Add x y, Remove x y])) cx cy) =
               set (getNeighbors (run_ops ops) cx cy))"
    using e r by simp
qed

theorem add_then_remove_round_trip_witness:
  "\<not> hasSegment (run_ops [Add 0 0, Add 1 0, Add 0 1, Add 2 1]) 1 1 \<and>
   snd (removeSegment (snd (addSegment (run_ops [Add 0 0, Add 1 0, Add 0 1, Add 2 1]) 1 1)) 1 1) =
     run_ops [Add 0 0, Add 1 0, Add 0 1, Add 2 1] \<and>
   set (getNeighbors (run_ops ([Add 0 0, Add 1 0, Add 0 1, Add 2 1] @ [Add 1 1, Remove 1 1])) 1 0) =
     set (getNeighbors (run_ops [Add 0 0, Add 1 0, Add 0 1, Add 2 1]) 1 0)"
proof -
  have h: "\<not> hasSegment (run_ops [Add 0 0, Add 1 0, Add 0 1, Add 2 1]) 1 1"
    by code_simp
  with add_then_remove_round_trip[of "[Add 0 0, Add 1 0, Add 0 1, Add 2 1]" 1 1]
  show ?thesis by blast
qed

section \<open>Pathfinding: A* over the road graph (utils/Pathfinding)\<close>

text \<open>
  A search node. Its \<^verbatim>\<open>gridX\<close> and \<^verbatim>\<open>gridY\<close> are the components of its key. A node's
  \<^verbatim>\<open>parent\<close> is always the node that was just moved to the closed set, and the source
  never writes to a node after that move, so the reference is modelled by the parent's
  value.
\<close>

datatype PathNode =
  PathNode (key: cell) (g: int) (h: int) (f: int) (parent: "PathNode option")

definition heuristic :: "cell \<Rightarrow> cell \<Rightarrow> int" where
  "heuristic a b = \<bar>fst a - fst b\<bar> + \<bar>snd a - snd b\<bar>"

text \<open>\<^verbatim>\<open>reconstructPath\<close>: follow the parents, putting each node in front of the path.\<close>

fun reconstructPath_loop :: "PathNode option \<Rightarrow> cell list \<Rightarrow> cell list" where
  "reconstructPath_loop None path = path"
| "reconstructPath_loop (Some (PathNode k gv hv fv p)) path =
     reconstructPath_loop p (k # path)"

definition reconstructPath :: "PathNode \<Rightarrow> cell list" where
  "reconstructPath node = reconstructPath_loop (Some node) []"

text \<open>
  The open set is a \<^verbatim>\<open>Map\<close> from keys to nodes in which every node is stored under its
  own key: the list of its nodes in insertion order, looked up by \<^const>\<open>key\<close>.
\<close>

type_synonym OpenSet = "PathNode list"

definition openSet_get :: "OpenSet \<Rightarrow> cell \<Rightarrow> PathNode option" where
  "openSet_get openSet k = find (\<lambda>node. key node = k) openSet"

definition openSet_delete :: "cell \<Rightarrow> OpenSet \<Rightarrow> OpenSet" where
  "openSet_delete k openSet = filter (\<lambda>node. key node \<noteq> k) openSet"

text \<open>
  The scan for the node with the lowest \<^verbatim>\<open>f\<close>: \<open>None\<close> is the initial state
  \<^verbatim>\<open>current = null, lowestF = Infinity\<close>; afterwards \<^verbatim>\<open>lowestF\<close> is \<^verbatim>\<open>current.f\<close>.
\<close>

fun lowestF_scan :: "PathNode option \<Rightarrow> PathNode list \<Rightarrow> PathNode option" where
  "lowestF_scan current [] = current"
| "lowestF_scan current (node # rest) =
     lowestF_scan
       (case current of
          None \<Rightarrow> Some node
        | Some c \<Rightarrow> if f node < f c then Some node else current) rest"

text \<open>One turn of the loop over the neighbours of \<^verbatim>\<open>current\<close>.\<close>

definition visit ::
  "cell \<Rightarrow> PathNode \<Rightarrow> cell set \<Rightarrow> OpenSet \<Rightarrow> cell \<Rightarrow> OpenSet" where
  "visit goal current closedSet openSet neighbor =
     (if neighbor \<in> closedSet then openSet
      else
        let tentativeG = g current + 1 in
        case openSet_get openSet neighbor of
          None \<Rightarrow>
            openSet @
              [PathNode neighbor tentativeG (heuristic neighbor goal)
                 (tentativeG + heuristic neighbor goal) (Some current)]
        | Some neighborNode \<Rightarrow>
            if tentativeG < g neighborNode then
              map (\<lambda>node. if key node = neighbor
                           then PathNode neighbor tentativeG (h neighborNode)
                                  (tentativeG + h neighborNode) (Some current)
                           else node) openSet
            else openSet)"

text \<open>All the keys that occur in neighbour sets of a road.\<close>

definition neighbor_keys :: "Road \<Rightarrow> cell set" where
  "neighbor_keys road = (\<Union>seg \<in> set road. set (neighbors (snd seg)))"

definition search_measure :: "Road \<Rightarrow> OpenSet \<Rightarrow> cell set \<Rightarrow> nat" where
  "search_measure road openSet closedSet =
     card (neighbor_keys road - closedSet - key ` set openSet) + length openSet"

lemma finite_neighbor_keys [simp]: "finite (neighbor_keys road)"
  by (simp add: neighbor_keys_def)

lemma getNeighbors_subset: "set (getNeighbors road a b) \<subseteq> neighbor_keys road"
proof
  fix c assume c: "c \<in> set (getNeighbors road a b)"
  then obtain seg where seg: "map_of road (a, b) = Some seg" "c \<in> set (neighbors seg)"
    by (cases "map_of road (a, b)") (auto simp: getNeighbors_def)
  from seg(1) have "((a, b), seg) \<in> set road" by (rule map_of_SomeD)
  with seg(2) show "c \<in> neighbor_keys road"
    unfolding neighbor_keys_def by force
qed

lemma openSet_get_None: "openSet_get openSet k = None \<longleftrightarrow> k \<notin> key ` set openSet"
  by (auto simp: openSet_get_def find_None_iff)

lemma openSet_get_Some:
  "openSet_get openSet k = Some n \<Longrightarrow> n \<in> set openSet \<and> key n = k"
  by (auto simp: openSet_get_def find_Some_iff)

lemma map_key_replace:
  "map key (map (\<lambda>node. if key node = nb then PathNode nb gv hv fv p else node) nodes) =
     map key nodes"
  by (induction nodes) auto

lemma visit_keys:
  "map key (visit goal current closedSet openSet nb) =
     (if nb \<in> closedSet \<or> nb \<in> key ` set openSet then map key openSet
      else map key openSet @ [nb])"
proof (cases "openSet_get openSet nb")
  case None
  then have "nb \<notin> key ` set openSet" by (simp add: openSet_get_None)
  then show ?thesis using None by (simp add: visit_def Let_def)
next
  case (Some n)
  then have "nb \<in> key ` set openSet" by (auto dest: openSet_get_Some)
  then show ?thesis using Some by (simp add: visit_def Let_def map_key_replace)
qed

lemma visit_measure:
  "nb \<in> neighbor_keys road \<Longrightarrow>
   search_measure road (visit goal current closedSet openSet nb) closedSet
     \<le> search_measure road openSet closedSet"
proof (cases "nb \<in> closedSet")
  case True
  then show ?thesis by (simp add: visit_def)
next
  case False
  assume nbk: "nb \<in> neighbor_keys road"
  show ?thesis
  proof (cases "openSet_get openSet nb")
    case None
    then have notin: "nb \<notin> key ` set openSet" by (simp add: openSet_get_None)
    let ?F = "neighbor_keys road - closedSet - key ` set openSet"
    have mem: "nb \<in> ?F" using nbk False notin by simp
    have "neighbor_keys road - closedSet - key ` set (visit goal current closedSet openSet nb)
           = ?F - {nb}"
      using None False by (auto simp: visit_def Let_def)
    moreover have "card (?F - {nb}) = card ?F - 1" using mem by simp
    moreover have "card ?F > 0" using mem by (metis card_gt_0_iff empty_iff finite_Diff finite_neighbor_keys)
    moreover have "length (visit goal current closedSet openSet nb) = length openSet + 1"
      using None False by (simp add: visit_def Let_def)
    ultimately show ?thesis by (simp add: search_measure_def)
  next
    case (Some n)
    then have k: "n \<in> set openSet" "key n = nb" by (auto dest: openSet_get_Some)
    have mk: "map key (visit goal current closedSet openSet nb) = map key openSet"
      using k by (auto simp: visit_keys)
    from mk have "set (map key (visit goal current closedSet openSet nb)) = set (map key openSet)"
      by simp
    then have "key ` set (visit goal current closedSet openSet nb) = key ` set openSet"
      by (simp only: set_map)
    moreover from mk have "length (map key (visit goal current closedSet openSet nb)) =
        length (map key openSet)" by simp
    then have "length (visit goal current closedSet openSet nb) = length openSet"
      by (simp only: length_map)
    ultimately show ?thesis by (simp add: search_measure_def)
  qed
qed

lemma visit_fold_measure:
  "set nbs \<subseteq> neighbor_keys road \<Longrightarrow>
   search_measure road (foldl (visit goal current closedSet) openSet nbs) closedSet
     \<le> search_measure road openSet closedSet"
proof (induction nbs arbitrary: openSet)
  case Nil
  then show ?case by simp
next
  case (Cons nb nbs)
  have "search_measure road (foldl (visit goal current closedSet) (visit goal current closedSet openSet nb) nbs) closedSet
        \<le> search_measure road (visit goal current closedSet openSet nb) closedSet"
    using Cons by simp
  also have "\<dots> \<le> search_measure road openSet closedSet"
    using Cons.prems by (simp add: visit_measure)
  finally show ?case by simp
qed

lemma lowestF_scan_mem:
  "lowestF_scan cur nodes = Some u \<Longrightarrow> u \<in> set nodes \<or> cur = Some u"
  by (induction nodes arbitrary: cur) (fastforce split: option.splits if_splits)+

lemma close_measure:
  assumes "u \<in> set openSet"
  shows "search_measure road (openSet_delete (key u) openSet) (insert (key u) closedSet)
     < search_measure road openSet closedSet"
proof -
  have "neighbor_keys road - insert (key u) closedSet - key ` set (openSet_delete (key u) openSet)
        \<subseteq> neighbor_keys road - closedSet - key ` set openSet"
    by (auto simp: openSet_delete_def)
  then have "card (neighbor_keys road - insert (key u) closedSet - key ` set (openSet_delete (key u) openSet))
        \<le> card (neighbor_keys road - closedSet - key ` set openSet)"
    by (intro card_mono) auto
  moreover have "length (openSet_delete (key u) openSet) < length openSet"
    unfolding openSet_delete_def using assms by (simp add: length_filter_less)
  ultimately show ?thesis by (simp add: search_measure_def)
qed

function search :: "Road \<Rightarrow> cell \<Rightarrow> OpenSet \<Rightarrow> cell set \<Rightarrow> cell list" where
  "search road goal openSet closedSet =
     (if length openSet > 0 then
        (case lowestF_scan None openSet of
           None \<Rightarrow> []
         | Some current \<Rightarrow>
             if key current = goal then reconstructPath current
             else
               let openSet1 = openSet_delete (key current) openSet;
                   closedSet1 = insert (key current) closedSet;
                   neighbors = getNeighbors road (fst (key current)) (snd (key current))
               in search road goal
                    (foldl (visit goal current closedSet1) openSet1 neighbors) closedSet1)
      else [])"
  by pat_completeness auto
termination
proof (relation "measure (\<lambda>(road, goal, openSet, closedSet). search_measure road openSet closedSet)")
  show "wf (measure (\<lambda>(road, goal, openSet, closedSet). search_measure road openSet closedSet))"
    by simp
next
  fix road :: Road and goal :: cell and openSet :: OpenSet and closedSet :: "cell set"
    and current openSet1 closedSet1 nbs
  assume "0 < length openSet" and sel: "lowestF_scan None openSet = Some current"
    and "key current \<noteq> goal"
    and o1: "openSet1 = openSet_delete (key current) openSet"
    and c1: "closedSet1 = insert (key current) closedSet"
    and n: "nbs = getNeighbors road (fst (key current)) (snd (key current))"
  from sel have mem: "current \<in> set openSet" by (auto dest: lowestF_scan_mem)
  have "search_measure road (foldl (visit goal current closedSet1) openSet1 nbs) closedSet1
        \<le> search_measure road openSet1 closedSet1"
    unfolding n by (rule visit_fold_measure[OF getNeighbors_subset])
  also have "\<dots> < search_measure road openSet closedSet"
    unfolding o1 c1 by (rule close_measure[OF mem])
  finally show "((road, goal, foldl (visit goal current closedSet1) openSet1 nbs, closedSet1),
         road, goal, openSet, closedSet)
       \<in> measure (\<lambda>(road, goal, openSet, closedSet). search_measure road openSet closedSet)"
    by simp
qed

definition findPath :: "Road \<Rightarrow> cell \<Rightarrow> cell \<Rightarrow> cell list" where
  "findPath road start goal =
     (if \<not> hasSegment road (fst start) (snd start) \<or> \<not> hasSegment road (fst goal) (snd goal)
      then []
      else if start = goal then [start]
      else
        let startNode = PathNode start 0 (heuristic start goal) (0 + heuristic start goal) None
        in search road goal [startNode] {})"

declare search.simps [simp del]

subsection \<open>Walks in the road graph\<close>

text \<open>
  A walk follows the neighbour sets, as the search does. A road path is a sequence of
  occupied cells, each 4-adjacent to the next; on a road that satisfies the invariant
  the two coincide.
\<close>

fun walk :: "Road \<Rightarrow> cell list \<Rightarrow> bool" where
  "walk road [] = False"
| "walk road [a] = True"
| "walk road (a # b # p) = (b \<in> set (getNeighbors road (fst a) (snd a)) \<and> walk road (b # p))"

fun road_path :: "Road \<Rightarrow> cell list \<Rightarrow> bool" where
  "road_path road [] = False"
| "road_path road [a] = hasSegment road (fst a) (snd a)"
| "road_path road (a # b # p) =
     (hasSegment road (fst a) (snd a) \<and> adjacent a b \<and> road_path road (b # p))"

definition node_ok :: "Road \<Rightarrow> cell \<Rightarrow> cell \<Rightarrow> PathNode \<Rightarrow> bool" where
  "node_ok road start goal n =
     (walk road (reconstructPath n) \<and> hd (reconstructPath n) = start \<and>
      last (reconstructPath n) = key n \<and> int (length (reconstructPath n)) = g n + 1 \<and>
      h n = heuristic (key n) goal \<and> f n = g n + h n)"

lemma reconstructPath_loop_append2:
  "reconstructPath_loop n (acc @ acc') = reconstructPath_loop n acc @ acc'"
  by (induction n acc rule: reconstructPath_loop.induct) simp_all

lemma reconstructPath_loop_append:
  "reconstructPath_loop n acc = reconstructPath_loop n [] @ acc"
  using reconstructPath_loop_append2[of n "[]" acc] by simp

lemma reconstructPath_root [simp]: "reconstructPath (PathNode k gv hv fv None) = [k]"
  by (simp add: reconstructPath_def)

lemma reconstructPath_child [simp]:
  "reconstructPath (PathNode k gv hv fv (Some q)) = reconstructPath q @ [k]"
  unfolding reconstructPath_def
  by (cases q) (simp add: reconstructPath_loop_append[of _ "[k]"])

lemma walk_snoc:
  "walk road p \<Longrightarrow> b \<in> set (getNeighbors road (fst (last p)) (snd (last p))) \<Longrightarrow>
     walk road (p @ [b])"
  by (induction road p rule: walk.induct) auto

lemma walk_append:
  "walk road p \<Longrightarrow> walk road q \<Longrightarrow>
     hd q \<in> set (getNeighbors road (fst (last p)) (snd (last p))) \<Longrightarrow> walk road (p @ q)"
  by (induction road p rule: walk.induct) (auto, (cases q; simp)+)

lemma walk_nonempty: "walk road p \<Longrightarrow> p \<noteq> []"
  by auto

lemma lowestF_scan_min:
  "lowestF_scan cur nodes = Some u \<Longrightarrow>
     (\<forall>n \<in> set nodes. f u \<le> f n) \<and> (\<forall>c. cur = Some c \<longrightarrow> f u \<le> f c)"
proof (induction nodes arbitrary: cur)
  case Nil
  then show ?case by simp
next
  case (Cons node rest)
  let ?cur' = "case cur of None \<Rightarrow> Some node
        | Some c \<Rightarrow> if f node < f c then Some node else cur"
  from Cons.prems have "lowestF_scan ?cur' rest = Some u" by simp
  from Cons.IH[OF this] have ih: "\<forall>n \<in> set rest. f u \<le> f n"
    "\<forall>c. ?cur' = Some c \<longrightarrow> f u \<le> f c" by blast+
  show ?case
  proof (cases cur)
    case None
    with ih show ?thesis by simp
  next
    case (Some c)
    with ih show ?thesis by (cases "f node < f c") auto
  qed
qed

lemma lowestF_scan_Some:
  "nodes \<noteq> [] \<or> cur \<noteq> None \<Longrightarrow> \<exists>u. lowestF_scan cur nodes = Some u"
  by (induction nodes arbitrary: cur) (auto split: option.splits)

lemma lowestF_scan_None_start:
  assumes "openSet \<noteq> []"
  obtains u where "lowestF_scan None openSet = Some u" "u \<in> set openSet"
    "\<forall>n \<in> set openSet. f u \<le> f n"
proof -
  from assms lowestF_scan_Some[of openSet None] obtain u
    where u: "lowestF_scan None openSet = Some u" by blast
  from lowestF_scan_mem[OF u] have "u \<in> set openSet" by simp
  moreover from lowestF_scan_min[OF u] have "\<forall>n \<in> set openSet. f u \<le> f n" by blast
  ultimately show ?thesis using u that by blast
qed

subsection \<open>The invariant of the search loop\<close>

definition open_has :: "OpenSet \<Rightarrow> cell \<Rightarrow> int \<Rightarrow> bool" where
  "open_has openSet k bound = (\<exists>n \<in> set openSet. key n = k \<and> g n \<le> bound)"

definition search_inv :: "Road \<Rightarrow> cell \<Rightarrow> cell \<Rightarrow> OpenSet \<Rightarrow> cell set \<Rightarrow> bool" where
  "search_inv road start goal openSet closedSet =
     (distinct (map key openSet) \<and>
      (\<forall>n \<in> set openSet. key n \<notin> closedSet \<and> node_ok road start goal n) \<and>
      goal \<notin> closedSet \<and>
      (start \<in> closedSet \<or> open_has openSet start 0) \<and>
      (\<forall>c q nb. c \<in> closedSet \<and> walk road q \<and> hd q = start \<and> last q = c \<and>
          nb \<in> set (getNeighbors road (fst c) (snd c)) \<longrightarrow>
          nb \<in> closedSet \<or> open_has openSet nb (int (length q))))"

lemma distinct_key_eq:
  "distinct (map key nodes) \<Longrightarrow> n \<in> set nodes \<Longrightarrow> m \<in> set nodes \<Longrightarrow> key n = key m \<Longrightarrow>
     n = m"
  by (meson distinct_map inj_onD)

lemma replace_mem:
  "old \<in> set nodes \<Longrightarrow> key old = nb \<Longrightarrow>
     new \<in> set (map (\<lambda>node. if key node = nb then new else node) nodes)"
  by (induction nodes) auto

lemma replace_keep:
  "n \<in> set nodes \<Longrightarrow> key n \<noteq> nb \<Longrightarrow>
     n \<in> set (map (\<lambda>node. if key node = nb then new else node) nodes)"
  by (induction nodes) auto

lemma visit_mem:
  assumes "n \<in> set (visit goal u C openSet nb)"
  shows "n \<in> set openSet \<or>
     (nb \<notin> C \<and> nb \<notin> key ` set openSet \<and>
        n = PathNode nb (g u + 1) (heuristic nb goal) (g u + 1 + heuristic nb goal) (Some u)) \<or>
     (nb \<notin> C \<and> (\<exists>old \<in> set openSet. key old = nb \<and>
        n = PathNode nb (g u + 1) (h old) (g u + 1 + h old) (Some u)))"
proof (cases "nb \<in> C")
  case True
  with assms show ?thesis by (simp add: visit_def)
next
  case False
  show ?thesis
  proof (cases "openSet_get openSet nb")
    case None
    then have "nb \<notin> key ` set openSet" by (simp add: openSet_get_None)
    then show ?thesis using assms None False by (auto simp: visit_def Let_def)
  next
    case (Some old)
    then have "old \<in> set openSet" "key old = nb" by (auto dest: openSet_get_Some)
    then show ?thesis using assms Some False
      by (auto simp: visit_def Let_def split: if_splits)
  qed
qed

lemma node_ok_child:
  assumes u: "node_ok road start goal u"
    and nb: "nb \<in> set (getNeighbors road (fst (key u)) (snd (key u)))"
    and hh: "hh = heuristic nb goal"
  shows "node_ok road start goal (PathNode nb (g u + 1) hh (g u + 1 + hh) (Some u))"
proof -
  from u have w: "walk road (reconstructPath u)" and hd: "hd (reconstructPath u) = start"
    and l: "last (reconstructPath u) = key u"
    and len: "int (length (reconstructPath u)) = g u + 1"
    by (simp_all add: node_ok_def)
  from w have ne: "reconstructPath u \<noteq> []" by auto
  have "walk road (reconstructPath u @ [nb])"
    using w nb l by (simp add: walk_snoc)
  then show ?thesis
    using ne hd len hh by (simp add: node_ok_def)
qed

lemma visit_step:
  assumes d: "distinct (map key openSet)"
    and ok: "\<forall>n \<in> set openSet. key n \<notin> C \<and> node_ok road start goal n"
    and u: "node_ok road start goal u"
    and nb: "nb \<in> set (getNeighbors road (fst (key u)) (snd (key u)))"
  shows "distinct (map key (visit goal u C openSet nb))"
    and "\<forall>n \<in> set (visit goal u C openSet nb). key n \<notin> C \<and> node_ok road start goal n"
    and "open_has openSet k B \<Longrightarrow> open_has (visit goal u C openSet nb) k B"
    and "nb \<notin> C \<Longrightarrow> open_has (visit goal u C openSet nb) nb (g u + 1)"
proof -
  show "distinct (map key (visit goal u C openSet nb))"
    using d by (auto simp: visit_keys)
  show "\<forall>n \<in> set (visit goal u C openSet nb). key n \<notin> C \<and> node_ok road start goal n"
  proof
    fix n assume "n \<in> set (visit goal u C openSet nb)"
    from visit_mem[OF this] show "key n \<notin> C \<and> node_ok road start goal n"
    proof (elim disjE conjE bexE)
      assume "n \<in> set openSet"
      with ok show ?thesis by blast
    next
      assume "nb \<notin> C" and
        "n = PathNode nb (g u + 1) (heuristic nb goal) (g u + 1 + heuristic nb goal) (Some u)"
      then show ?thesis using node_ok_child[OF u nb refl] by simp
    next
      fix old assume "nb \<notin> C" "old \<in> set openSet" "key old = nb"
        and n: "n = PathNode nb (g u + 1) (h old) (g u + 1 + h old) (Some u)"
      with ok have "h old = heuristic nb goal" by (auto simp: node_ok_def)
      from node_ok_child[OF u nb this] n \<open>nb \<notin> C\<close> show ?thesis by simp
    qed
  qed
  show "open_has (visit goal u C openSet nb) k B" if "open_has openSet k B"
  proof -
    from that obtain n where n: "n \<in> set openSet" "key n = k" "g n \<le> B"
      by (auto simp: open_has_def)
    show ?thesis
    proof (cases "nb \<in> C")
      case True
      then show ?thesis using that by (simp add: visit_def)
    next
      case False
      show ?thesis
      proof (cases "openSet_get openSet nb")
        case None
        then show ?thesis using n False by (auto simp: visit_def Let_def open_has_def)
      next
        case (Some old)
        then have old: "old \<in> set openSet" "key old = nb" by (auto dest: openSet_get_Some)
        show ?thesis
        proof (cases "g u + 1 < g old")
          case False
          then show ?thesis using Some \<open>nb \<notin> C\<close> that by (simp add: visit_def Let_def)
        next
          case True
          let ?new = "PathNode nb (g u + 1) (h old) (g u + 1 + h old) (Some u)"
          have v: "visit goal u C openSet nb =
                map (\<lambda>node. if key node = nb then ?new else node) openSet"
            using Some \<open>nb \<notin> C\<close> True by (simp add: visit_def Let_def)
          show ?thesis
          proof (cases "k = nb")
            case False
            then have "n \<in> set (visit goal u C openSet nb)"
              unfolding v using n by (intro replace_keep) simp_all
            then show ?thesis using n unfolding open_has_def by blast
          next
            case True
            with n old have "key n = key old" by simp
            with n old d have "n = old" by (intro distinct_key_eq[of openSet]) simp_all
            have "?new \<in> set (visit goal u C openSet nb)"
              unfolding v using old by (intro replace_mem) simp_all
            moreover have "g ?new \<le> B" using \<open>g u + 1 < g old\<close> \<open>n = old\<close> n by simp
            moreover have "key ?new = k" using True by simp
            ultimately show ?thesis unfolding open_has_def by blast
          qed
        qed
      qed
    qed
  qed
  show "open_has (visit goal u C openSet nb) nb (g u + 1)" if "nb \<notin> C"
  proof (cases "openSet_get openSet nb")
    case None
    then show ?thesis using that by (auto simp: visit_def Let_def open_has_def)
  next
    case (Some old)
    then have old: "old \<in> set openSet" "key old = nb" by (auto dest: openSet_get_Some)
    show ?thesis
    proof (cases "g u + 1 < g old")
      case False
      then show ?thesis using Some that old by (auto simp: visit_def Let_def open_has_def)
    next
      case True
      let ?new = "PathNode nb (g u + 1) (h old) (g u + 1 + h old) (Some u)"
      have v: "visit goal u C openSet nb =
                map (\<lambda>node. if key node = nb then ?new else node) openSet"
        using Some that True by (simp add: visit_def Let_def)
      have "?new \<in> set (visit goal u C openSet nb)"
        unfolding v using old by (intro replace_mem) simp_all
      moreover have "key ?new = nb" "g ?new \<le> g u + 1" by simp_all
      ultimately show ?thesis unfolding open_has_def by blast
    qed
  qed
qed

lemma visit_fold:
  assumes "distinct (map key openSet)"
    and "\<forall>n \<in> set openSet. key n \<notin> C \<and> node_ok road start goal n"
    and "node_ok road start goal u"
    and "set nbs \<subseteq> set (getNeighbors road (fst (key u)) (snd (key u)))"
  shows "distinct (map key (foldl (visit goal u C) openSet nbs)) \<and>
     (\<forall>n \<in> set (foldl (visit goal u C) openSet nbs). key n \<notin> C \<and> node_ok road start goal n) \<and>
     (\<forall>k B. open_has openSet k B \<longrightarrow> open_has (foldl (visit goal u C) openSet nbs) k B) \<and>
     (\<forall>nb \<in> set nbs. nb \<notin> C \<longrightarrow> open_has (foldl (visit goal u C) openSet nbs) nb (g u + 1))"
  using assms
proof (induction nbs arbitrary: openSet)
  case Nil
  then show ?case by simp
next
  case (Cons nb nbs)
  let ?o1 = "visit goal u C openSet nb"
  from Cons.prems(4) have nb: "nb \<in> set (getNeighbors road (fst (key u)) (snd (key u)))"
    and rest: "set nbs \<subseteq> set (getNeighbors road (fst (key u)) (snd (key u)))" by auto
  note s = visit_step[OF Cons.prems(1) Cons.prems(2) Cons.prems(3) nb]
  note ih = Cons.IH[OF s(1) s(2) Cons.prems(3) rest]
  have mono: "\<forall>k B. open_has openSet k B \<longrightarrow> open_has (foldl (visit goal u C) ?o1 nbs) k B"
    using s(3) ih by blast
  have "nb \<notin> C \<longrightarrow> open_has (foldl (visit goal u C) ?o1 nbs) nb (g u + 1)"
    using s(4) ih by blast
  moreover have "\<forall>nb' \<in> set nbs. nb' \<notin> C \<longrightarrow>
      open_has (foldl (visit goal u C) ?o1 nbs) nb' (g u + 1)"
    using ih by blast
  ultimately have est: "\<forall>nb' \<in> set (nb # nbs). nb' \<notin> C \<longrightarrow>
      open_has (foldl (visit goal u C) ?o1 nbs) nb' (g u + 1)"
    by simp
  have d: "distinct (map key (foldl (visit goal u C) ?o1 nbs))" using ih by blast
  have o: "\<forall>n \<in> set (foldl (visit goal u C) ?o1 nbs). key n \<notin> C \<and> node_ok road start goal n"
    using ih by blast
  show ?case unfolding foldl_Cons using d o mono est by blast
qed

lemma heuristic_step: "adjacent a b \<Longrightarrow> heuristic a goal \<le> 1 + heuristic b goal"
  unfolding adjacent_def heuristic_def by linarith

lemma edge_adjacent:
  "road_inv road \<Longrightarrow> b \<in> set (getNeighbors road (fst a) (snd a)) \<Longrightarrow>
     adjacent a b \<and> hasSegment road (fst a) (snd a) \<and> hasSegment road (fst b) (snd b)"
  using getNeighbors_iff[of road b a] by blast

lemma walk_heuristic:
  "road_inv road \<Longrightarrow> walk road p \<Longrightarrow>
     heuristic (hd p) goal \<le> int (length p) - 1 + heuristic (last p) goal"
proof (induction road p rule: walk.induct)
  case (1 road)
  then show ?case by simp
next
  case (2 road a)
  then show ?case by simp
next
  case (3 road a b p)
  then have "adjacent a b" using edge_adjacent[of road b a] by simp
  from heuristic_step[OF this, of goal] 3 show ?case by simp
qed

lemma walk_split:
  "walk road (q1 @ c # nb # q2) \<Longrightarrow>
     walk road (q1 @ [c]) \<and> nb \<in> set (getNeighbors road (fst c) (snd c)) \<and> walk road (nb # q2)"
proof (induction q1)
  case Nil
  then show ?case by simp
next
  case (Cons a q1)
  show ?case
  proof (cases q1)
    case Nil
    with Cons show ?thesis by simp
  next
    case (Cons a' q1')
    with Cons.prems Cons.IH show ?thesis by simp
  qed
qed

lemma walk_exit:
  "walk road q \<Longrightarrow> hd q \<in> C \<Longrightarrow> last q \<notin> C \<Longrightarrow>
     \<exists>q1 c nb q2. q = q1 @ c # nb # q2 \<and> c \<in> C \<and> nb \<notin> C"
proof (induction road q rule: walk.induct)
  case (1 road)
  then show ?case by simp
next
  case (2 road a)
  then show ?case by simp
next
  case (3 road a b p)
  show ?case
  proof (cases "b \<in> C")
    case False
    with "3.prems" have "a # b # p = [] @ a # b # p \<and> a \<in> C \<and> b \<notin> C" by simp
    then show ?thesis by blast
  next
    case True
    with "3.prems" "3.IH" obtain q1 c nb q2 where
      "b # p = q1 @ c # nb # q2" "c \<in> C" "nb \<notin> C" by auto
    then have "a # b # p = (a # q1) @ c # nb # q2 \<and> c \<in> C \<and> nb \<notin> C" by simp
    then show ?thesis by blast
  qed
qed

text \<open>
  The node the scan selects carries a shortest distance: no walk from the start to its
  cell has fewer edges than its \<open>g\<close>.
\<close>

lemma select_optimal:
  assumes inv: "search_inv road start goal openSet closedSet"
    and rinv: "road_inv road"
    and u: "u \<in> set openSet" and least: "\<forall>n \<in> set openSet. f u \<le> f n"
    and q: "walk road q" "hd q = start" "last q = key u"
  shows "g u + 1 \<le> int (length q)"
proof -
  from inv u have uk: "key u \<notin> closedSet" and uok: "node_ok road start goal u"
    by (auto simp: search_inv_def)
  have fu: "f u = g u + heuristic (key u) goal" using uok by (simp add: node_ok_def)
  have bound: "g u + 1 \<le> int (length q)"
    if n: "n \<in> set openSet" and fn: "f n \<le> int (length q) - 1 + heuristic (key u) goal" for n
  proof -
    from least n have "f u \<le> f n" by blast
    with fn fu show ?thesis by linarith
  qed
  show ?thesis
  proof (cases "start \<in> closedSet")
    case False
    with inv obtain n where n: "n \<in> set openSet" "key n = start" "g n \<le> 0"
      by (auto simp: search_inv_def open_has_def)
    from inv n have "f n = g n + heuristic start goal" by (auto simp: search_inv_def node_ok_def)
    moreover from walk_heuristic[OF rinv q(1), of goal] q
    have "heuristic start goal \<le> int (length q) - 1 + heuristic (key u) goal" by simp
    ultimately have "f n \<le> int (length q) - 1 + heuristic (key u) goal" using n(3) by linarith
    from bound[OF n(1) this] show ?thesis .
  next
    case True
    from walk_exit[OF q(1), of closedSet] True q uk
    obtain q1 c nb q2 where sp: "q = q1 @ c # nb # q2" "c \<in> closedSet" "nb \<notin> closedSet"
      by auto
    from walk_split[OF q(1)[unfolded sp(1)]]
    have w1: "walk road (q1 @ [c])" and e: "nb \<in> set (getNeighbors road (fst c) (snd c))"
      and w2: "walk road (nb # q2)" by blast+
    have h1: "hd (q1 @ [c]) = start" using q(2) sp(1) by (cases q1) auto
    have l2: "last (nb # q2) = key u" using q(3) sp(1) by simp
    from inv sp(2) w1 h1 e sp(3) have "open_has openSet nb (int (length (q1 @ [c])))"
      unfolding search_inv_def by (metis last_snoc)
    then obtain n where n: "n \<in> set openSet" "key n = nb" "g n \<le> int (length (q1 @ [c]))"
      by (auto simp: open_has_def)
    from inv n have "f n = g n + heuristic nb goal" by (auto simp: search_inv_def node_ok_def)
    moreover from walk_heuristic[OF rinv w2, of goal] l2
    have "heuristic nb goal \<le> int (length (nb # q2)) - 1 + heuristic (key u) goal" by simp
    moreover have "int (length q) = int (length (q1 @ [c])) + int (length (nb # q2))"
      by (simp add: sp(1))
    ultimately have "f n \<le> int (length q) - 1 + heuristic (key u) goal" using n(3) by linarith
    from bound[OF n(1) this] show ?thesis .
  qed
qed

lemma open_has_delete:
  "open_has openSet k B \<Longrightarrow> k \<noteq> k' \<Longrightarrow> open_has (openSet_delete k' openSet) k B"
  by (auto simp: open_has_def openSet_delete_def)

lemma open_has_mono: "open_has openSet k B \<Longrightarrow> B \<le> B' \<Longrightarrow> open_has openSet k B'"
  by (auto simp: open_has_def)

lemma search_inv_step:
  assumes inv: "search_inv road start goal openSet closedSet"
    and rinv: "road_inv road"
    and sel: "lowestF_scan None openSet = Some u"
    and ne: "key u \<noteq> goal"
  shows "search_inv road start goal
           (foldl (visit goal u (insert (key u) closedSet)) (openSet_delete (key u) openSet)
              (getNeighbors road (fst (key u)) (snd (key u))))
           (insert (key u) closedSet)"
proof -
  let ?C1 = "insert (key u) closedSet"
  let ?O1 = "openSet_delete (key u) openSet"
  let ?nbs = "getNeighbors road (fst (key u)) (snd (key u))"
  let ?O2 = "foldl (visit goal u ?C1) ?O1 ?nbs"
  from lowestF_scan_mem[OF sel] have u: "u \<in> set openSet" by simp
  from lowestF_scan_min[OF sel] have least: "\<forall>n \<in> set openSet. f u \<le> f n" by blast
  from inv have d: "distinct (map key openSet)"
    and ok: "\<forall>n \<in> set openSet. key n \<notin> closedSet \<and> node_ok road start goal n"
    and g: "goal \<notin> closedSet"
    and st: "start \<in> closedSet \<or> open_has openSet start 0"
    and cl: "\<And>c q nb. c \<in> closedSet \<Longrightarrow> walk road q \<Longrightarrow> hd q = start \<Longrightarrow> last q = c \<Longrightarrow>
          nb \<in> set (getNeighbors road (fst c) (snd c)) \<Longrightarrow>
          nb \<in> closedSet \<or> open_has openSet nb (int (length q))"
    unfolding search_inv_def by blast+
  from ok u have uok: "node_ok road start goal u" by blast
  have d1: "distinct (map key ?O1)"
    using d by (simp add: openSet_delete_def distinct_map_filter)
  have ok1: "\<forall>n \<in> set ?O1. key n \<notin> ?C1 \<and> node_ok road start goal n"
    using ok by (auto simp: openSet_delete_def)
  note vf = visit_fold[OF d1 ok1 uok subset_refl]
  from vf have d2: "distinct (map key ?O2)" by blast
  from vf have ok2: "\<forall>n \<in> set ?O2. key n \<notin> ?C1 \<and> node_ok road start goal n" by blast
  from vf have mono: "\<And>k B. open_has ?O1 k B \<Longrightarrow> open_has ?O2 k B" by blast
  from vf have est: "\<And>nb. nb \<in> set ?nbs \<Longrightarrow> nb \<notin> ?C1 \<Longrightarrow> open_has ?O2 nb (g u + 1)"
    by blast
  have keep: "open_has ?O2 k B" if "open_has openSet k B" "k \<noteq> key u" for k B
    using that by (intro mono open_has_delete)
  have g2: "goal \<notin> ?C1" using g ne by simp
  have st2: "start \<in> ?C1 \<or> open_has ?O2 start 0"
  proof (cases "start = key u \<or> start \<in> closedSet")
    case True
    then show ?thesis by auto
  next
    case False
    with st have "open_has openSet start 0" by simp
    with False show ?thesis by (simp add: keep)
  qed
  have cl2: "nb \<in> ?C1 \<or> open_has ?O2 nb (int (length q))"
    if c: "c \<in> ?C1" and q: "walk road q" "hd q = start" "last q = c"
      and nb: "nb \<in> set (getNeighbors road (fst c) (snd c))" for c q nb
  proof (cases "nb \<in> ?C1")
    case True
    then show ?thesis by simp
  next
    case False
    show ?thesis
    proof (cases "c = key u")
      case True
      from select_optimal[OF inv rinv u least q(1) q(2)] q(3) True
      have le: "g u + 1 \<le> int (length q)" by simp
      from est[of nb] nb True False have "open_has ?O2 nb (g u + 1)" by simp
      from open_has_mono[OF this le] show ?thesis by simp
    next
      case cne: False
      with c have "c \<in> closedSet" by simp
      from cl[OF this q nb] False have "open_has openSet nb (int (length q))" by simp
      moreover from False have "nb \<noteq> key u" by simp
      ultimately show ?thesis by (simp add: keep)
    qed
  qed
  show ?thesis
    unfolding search_inv_def using d2 ok2 g2 st2 cl2 by blast
qed

text \<open>When the frontier is empty, every cell a walk from the start reaches is closed.\<close>

lemma exhausted_no_walk:
  assumes inv: "search_inv road start goal [] closedSet"
    and q: "walk road q" "hd q = start" "last q = goal"
  shows False
proof -
  from inv have g: "goal \<notin> closedSet" and st: "start \<in> closedSet"
    and cl: "\<And>c q nb. c \<in> closedSet \<Longrightarrow> walk road q \<Longrightarrow> hd q = start \<Longrightarrow> last q = c \<Longrightarrow>
          nb \<in> set (getNeighbors road (fst c) (snd c)) \<Longrightarrow> nb \<in> closedSet"
    unfolding search_inv_def open_has_def by auto
  from walk_exit[OF q(1), of closedSet] st g q
  obtain q1 c nb q2 where sp: "q = q1 @ c # nb # q2" "c \<in> closedSet" "nb \<notin> closedSet"
    by auto
  from walk_split[OF q(1)[unfolded sp(1)]]
  have w1: "walk road (q1 @ [c])" and e: "nb \<in> set (getNeighbors road (fst c) (snd c))"
    by blast+
  have h1: "hd (q1 @ [c]) = start" using q(2) sp(1) by (cases q1) auto
  from cl[OF sp(2) w1 h1 _ e] sp(3) show False by simp
qed

definition shortest_walk :: "Road \<Rightarrow> cell \<Rightarrow> cell \<Rightarrow> cell list \<Rightarrow> bool" where
  "shortest_walk road start goal p =
     (walk road p \<and> hd p = start \<and> last p = goal \<and>
      (\<forall>q. walk road q \<and> hd q = start \<and> last q = goal \<longrightarrow> length p \<le> length q))"

lemma search_result:
  "search_inv road start goal openSet closedSet \<Longrightarrow> road_inv road \<Longrightarrow>
     (search road goal openSet closedSet = [] \<and>
        \<not> (\<exists>q. walk road q \<and> hd q = start \<and> last q = goal)) \<or>
     shortest_walk road start goal (search road goal openSet closedSet)"
proof (induction road goal openSet closedSet rule: search.induct)
  case (1 road goal openSet closedSet)
  note inv = "1.prems"(1) and rinv = "1.prems"(2)
  show ?case
  proof (cases "openSet = []")
    case True
    then have "search road goal openSet closedSet = []" by (simp add: search.simps)
    moreover have "\<not> (\<exists>q. walk road q \<and> hd q = start \<and> last q = goal)"
      using exhausted_no_walk[OF inv[unfolded True]] by blast
    ultimately show ?thesis by blast
  next
    case False
    then obtain u where sel: "lowestF_scan None openSet = Some u" and u: "u \<in> set openSet"
      and least: "\<forall>n \<in> set openSet. f u \<le> f n"
      by (rule lowestF_scan_None_start)
    show ?thesis
    proof (cases "key u = goal")
      case True
      have r: "search road goal openSet closedSet = reconstructPath u"
        using False sel True by (simp add: search.simps)
      from inv u have uok: "node_ok road start goal u" by (auto simp: search_inv_def)
      have "length (reconstructPath u) \<le> length q"
        if "walk road q \<and> hd q = start \<and> last q = goal" for q
      proof -
        from select_optimal[OF inv rinv u least, of q] that True
        have "g u + 1 \<le> int (length q)" by simp
        with uok show ?thesis by (simp add: node_ok_def)
      qed
      with uok True have "shortest_walk road start goal (reconstructPath u)"
        by (simp add: shortest_walk_def node_ok_def)
      then show ?thesis by (simp add: r)
    next
      case ne: False
      let ?C1 = "insert (key u) closedSet"
      let ?O1 = "openSet_delete (key u) openSet"
      let ?nbs = "getNeighbors road (fst (key u)) (snd (key u))"
      have r: "search road goal openSet closedSet =
               search road goal (foldl (visit goal u ?C1) ?O1 ?nbs) ?C1"
        using False sel ne by (subst search.simps) (simp add: Let_def)
      have pos: "0 < length openSet" using False by simp
      from "1.IH"[OF pos sel ne refl refl refl search_inv_step[OF inv rinv sel ne] rinv]
      show ?thesis unfolding r .
    qed
  qed
qed

subsection \<open>Results about findPath\<close>

definition connects :: "Road \<Rightarrow> cell \<Rightarrow> cell \<Rightarrow> cell list \<Rightarrow> bool" where
  "connects road start goal p = (road_path road p \<and> hd p = start \<and> last p = goal)"

definition edge_count :: "cell list \<Rightarrow> nat" where
  "edge_count p = length p - 1"

lemma road_path_iff_walk:
  "road_inv road \<Longrightarrow>
     road_path road p \<longleftrightarrow> walk road p \<and> hasSegment road (fst (hd p)) (snd (hd p))"
proof (induction road p rule: road_path.induct)
  case (1 road)
  then show ?case by simp
next
  case (2 road a)
  then show ?case by simp
next
  case (3 road a b p)
  have "b \<in> set (getNeighbors road (fst a) (snd a)) \<longleftrightarrow>
        hasSegment road (fst a) (snd a) \<and> hasSegment road (fst b) (snd b) \<and> adjacent a b"
    by (rule getNeighbors_iff[OF "3.prems"])
  with 3 show ?case by auto
qed

lemma connects_iff_walk:
  assumes "road_inv road" and "hasSegment road (fst start) (snd start)"
  shows "connects road start goal p \<longleftrightarrow> walk road p \<and> hd p = start \<and> last p = goal"
  using assms by (auto simp: connects_def road_path_iff_walk)

lemma search_inv_init:
  "search_inv road start goal
     [PathNode start 0 (heuristic start goal) (0 + heuristic start goal) None] {}"
  by (simp add: search_inv_def node_ok_def open_has_def)

lemma findPath_spec:
  assumes rinv: "road_inv road"
    and s: "hasSegment road (fst start) (snd start)"
    and e: "hasSegment road (fst goal) (snd goal)"
  shows "(findPath road start goal = [] \<and>
            \<not> (\<exists>q. walk road q \<and> hd q = start \<and> last q = goal)) \<or>
         shortest_walk road start goal (findPath road start goal)"
proof (cases "start = goal")
  case True
  then have "findPath road start goal = [start]" using s by (simp add: findPath_def)
  moreover have "shortest_walk road start goal [start]"
    unfolding shortest_walk_def using True
    by (auto simp: Suc_le_eq)
  ultimately show ?thesis by simp
next
  case False
  then have "findPath road start goal =
      search road goal [PathNode start 0 (heuristic start goal) (0 + heuristic start goal) None] {}"
    using s e by (simp add: findPath_def)
  with search_result[OF search_inv_init[of road start goal] rinv] show ?thesis by simp
qed

text \<open>
  Claim C1. On every road built by \<^verbatim>\<open>addSegment\<close>/\<^verbatim>\<open>removeSegment\<close> calls, for occupied
  cells start and end that some path along 4-adjacent occupied cells connects,
  \<^verbatim>\<open>findPath\<close> returns a non-empty such path from start to end, and no path between the
  same endpoints has fewer edges.
\<close>

theorem findPath_shortest:
  "hasSegment (run_ops ops) (fst start) (snd start) \<and>
   hasSegment (run_ops ops) (fst goal) (snd goal) \<and>
   (\<exists>q. connects (run_ops ops) start goal q) \<longrightarrow>
     findPath (run_ops ops) start goal \<noteq> [] \<and>
     connects (run_ops ops) start goal (findPath (run_ops ops) start goal) \<and>
     (\<forall>q. connects (run_ops ops) start goal q \<longrightarrow>
        edge_count (findPath (run_ops ops) start goal) \<le> edge_count q)"
proof (intro impI, elim conjE exE)
  fix q0
  let ?r = "run_ops ops"
  assume s: "hasSegment ?r (fst start) (snd start)"
    and e: "hasSegment ?r (fst goal) (snd goal)"
    and q0: "connects ?r start goal q0"
  note rinv = road_inv_run_ops[of ops]
  note cw = connects_iff_walk[OF rinv s]
  from q0 have "\<exists>q. walk ?r q \<and> hd q = start \<and> last q = goal" unfolding cw by blast
  with findPath_spec[OF rinv s e] have sw: "shortest_walk ?r start goal (findPath ?r start goal)"
    by blast
  then have w: "walk ?r (findPath ?r start goal)" by (simp add: shortest_walk_def)
  then have ne: "findPath ?r start goal \<noteq> []" by auto
  have c: "connects ?r start goal (findPath ?r start goal)"
    unfolding cw using sw by (simp add: shortest_walk_def)
  have m: "\<forall>q. connects ?r start goal q \<longrightarrow>
        edge_count (findPath ?r start goal) \<le> edge_count q"
    unfolding cw edge_count_def using sw by (simp add: shortest_walk_def diff_le_mono)
  show "findPath ?r start goal \<noteq> [] \<and> connects ?r start goal (findPath ?r start goal) \<and>
     (\<forall>q. connects ?r start goal q \<longrightarrow>
        edge_count (findPath ?r start goal) \<le> edge_count q)"
    using ne c m by blast
qed

text \<open>
  Claim C3. \<^verbatim>\<open>findPath\<close> is a total function with no error result. On any road it
  returns the empty sequence when start or end is not occupied, and \<^verbatim>\<open>[start]\<close> when start
  equals end and is occupied; on every road built by \<^verbatim>\<open>addSegment\<close>/\<^verbatim>\<open>removeSegment\<close> calls
  it returns the empty sequence when both are occupied and no path along 4-adjacent
  occupied cells connects them.
\<close>

theorem findPath_no_path:
  "(\<not> hasSegment road (fst start) (snd start) \<or> \<not> hasSegment road (fst goal) (snd goal) \<longrightarrow>
      findPath road start goal = []) \<and>
   (hasSegment road (fst start) (snd start) \<longrightarrow> findPath road start start = [start]) \<and>
   (hasSegment (run_ops ops) (fst start) (snd start) \<and>
    hasSegment (run_ops ops) (fst goal) (snd goal) \<and>
    \<not> (\<exists>q. connects (run_ops ops) start goal q) \<longrightarrow>
      findPath (run_ops ops) start goal = [])"
proof -
  have a: "\<not> hasSegment road (fst start) (snd start) \<or> \<not> hasSegment road (fst goal) (snd goal) \<longrightarrow>
      findPath road start goal = []"
    by (auto simp: findPath_def)
  have b: "hasSegment road (fst start) (snd start) \<longrightarrow> findPath road start start = [start]"
    by (simp add: findPath_def)
  have c: "findPath (run_ops ops) start goal = []"
    if s: "hasSegment (run_ops ops) (fst start) (snd start)"
      and e: "hasSegment (run_ops ops) (fst goal) (snd goal)"
      and n: "\<not> (\<exists>q. connects (run_ops ops) start goal q)"
  proof -
    note rinv = road_inv_run_ops[of ops]
    from findPath_spec[OF rinv s e] show ?thesis
    proof
      assume "findPath (run_ops ops) start goal = [] \<and>
        \<not> (\<exists>q. walk (run_ops ops) q \<and> hd q = start \<and> last q = goal)"
      then show ?thesis by simp
    next
      assume "shortest_walk (run_ops ops) start goal (findPath (run_ops ops) start goal)"
      then have "connects (run_ops ops) start goal (findPath (run_ops ops) start goal)"
        unfolding connects_iff_walk[OF rinv s] by (simp add: shortest_walk_def)
      with n show ?thesis by blast
    qed
  qed
  show ?thesis using a b c by blast
qed

definition detour_ops :: "road_op list" where
  "detour_ops = [Add 0 0, Add 1 0, Add 2 0, Add 2 1, Add 0 1, Add 1 1, Add 9 9, Remove 9 9]"

theorem findPath_shortest_witness:
  "hasSegment (run_ops detour_ops) 0 0 \<and> hasSegment (run_ops detour_ops) 2 1 \<and>
   connects (run_ops detour_ops) (0, 0) (2, 1) [(0, 0), (0, 1), (1, 1), (2, 1)] \<and>
   findPath (run_ops detour_ops) (0, 0) (2, 1) \<noteq> [] \<and>
   connects (run_ops detour_ops) (0, 0) (2, 1) (findPath (run_ops detour_ops) (0, 0) (2, 1)) \<and>
   edge_count (findPath (run_ops detour_ops) (0, 0) (2, 1)) \<le> 3 \<and>
   findPath (run_ops detour_ops) (0, 0) (2, 1) = [(0, 0), (1, 0), (2, 0), (2, 1)]"
proof -
  have s: "hasSegment (run_ops detour_ops) (fst (0, 0)) (snd (0, 0))"
    and e: "hasSegment (run_ops detour_ops) (fst (2, 1)) (snd (2, 1))"
    and q: "connects (run_ops detour_ops) (0, 0) (2, 1) [(0, 0), (0, 1), (1, 1), (2, 1)]"
    and p: "findPath (run_ops detour_ops) (0, 0) (2, 1) = [(0, 0), (1, 0), (2, 0), (2, 1)]"
    unfolding detour_ops_def by code_simp+
  have ec: "edge_count [(0, 0), (0, 1), (1, 1), (2, 1)] = 3" by (simp add: edge_count_def)
  from q have ex: "\<exists>q. connects (run_ops detour_ops) (0, 0) (2, 1) q" by blast
  from findPath_shortest[of detour_ops "(0, 0)" "(2, 1)"] s e ex
  have "findPath (run_ops detour_ops) (0, 0) (2, 1) \<noteq> []"
    and "connects (run_ops detour_ops) (0, 0) (2, 1) (findPath (run_ops detour_ops) (0, 0) (2, 1))"
    and "\<forall>q. connects (run_ops detour_ops) (0, 0) (2, 1) q \<longrightarrow>
        edge_count (findPath (run_ops detour_ops) (0, 0) (2, 1)) \<le> edge_count q"
    by blast+
  with q ec p s e show ?thesis by (metis fst_conv snd_conv)
qed

lemma road_path_hd:
  "road_path road p \<Longrightarrow> hasSegment road (fst (hd p)) (snd (hd p))"
  by (induction road p rule: road_path.induct) auto

lemma road_path_closed:
  assumes "road_path road q" and "hd q \<in> S"
    and "\<forall>a b. a \<in> S \<and> adjacent a b \<and> hasSegment road (fst b) (snd b) \<longrightarrow> b \<in> S"
  shows "last q \<in> S"
  using assms
proof (induction road q rule: road_path.induct)
  case (1 road)
  then show ?case by simp
next
  case (2 road a)
  then show ?case by simp
next
  case (3 road a b p)
  from "3.prems"(1) have ab: "adjacent a b" and rp: "road_path road (b # p)" by simp_all
  from road_path_hd[OF rp] have "hasSegment road (fst b) (snd b)" by simp
  moreover from "3.prems"(2) have "a \<in> S" by simp
  ultimately have "b \<in> S" using "3.prems"(3) ab by blast
  then have "hd (b # p) \<in> S" by simp
  from "3.IH"[OF rp this "3.prems"(3)] show ?case by simp
qed

definition islands_ops :: "road_op list" where
  "islands_ops = [Add 0 0, Add 1 0, Add 5 5]"

lemma islands_occupied:
  "hasSegment (run_ops islands_ops) bx by' \<longleftrightarrow> (bx, by') \<in> {(0, 0), (1, 0), (5, 5)}"
  by (simp add: islands_ops_def run_ops_def emptyRoad_def addSegment_def Map_has_def
      directions_def Let_def hasSegment_def update_conv')

lemma islands_disconnected: "\<not> (\<exists>q. connects (run_ops islands_ops) (0, 0) (5, 5) q)"
proof
  assume "\<exists>q. connects (run_ops islands_ops) (0, 0) (5, 5) q"
  then obtain q where q: "road_path (run_ops islands_ops) q" "hd q = (0, 0)" "last q = (5, 5)"
    by (auto simp: connects_def)
  have "last q \<in> {(0, 0), (1, 0)}"
  proof (rule road_path_closed[OF q(1)])
    show "hd q \<in> {(0, 0), (1, 0)}" using q(2) by simp
  next
    show "\<forall>a b. a \<in> {(0, 0), (1, 0)} \<and> adjacent a b \<and>
        hasSegment (run_ops islands_ops) (fst b) (snd b) \<longrightarrow> b \<in> {(0, 0), (1, 0)}"
      by (auto simp: islands_occupied adjacent_def)
  qed
  with q(3) show False by simp
qed

theorem findPath_no_path_witness:
  "\<not> hasSegment (run_ops islands_ops) 3 3 \<and>
   findPath (run_ops islands_ops) (3, 3) (0, 0) = [] \<and>
   hasSegment (run_ops islands_ops) 0 0 \<and>
   findPath (run_ops islands_ops) (0, 0) (0, 0) = [(0, 0)] \<and>
   hasSegment (run_ops islands_ops) 5 5 \<and>
   \<not> (\<exists>q. connects (run_ops islands_ops) (0, 0) (5, 5) q) \<and>
   findPath (run_ops islands_ops) (0, 0) (5, 5) = []"
proof -
  have a: "\<not> hasSegment (run_ops islands_ops) 3 3" "hasSegment (run_ops islands_ops) 0 0"
    "hasSegment (run_ops islands_ops) 5 5"
    by (simp_all add: islands_occupied)
  from findPath_no_path[of "run_ops islands_ops" "(3, 3)" "(0, 0)"] a
  have p1: "findPath (run_ops islands_ops) (3, 3) (0, 0) = []" by simp
  from findPath_no_path[of "run_ops islands_ops" "(0, 0)" "(0, 0)"] a
  have p2: "findPath (run_ops islands_ops) (0, 0) (0, 0) = [(0, 0)]" by simp
  from findPath_no_path[of _ "(0, 0)" "(5, 5)" islands_ops] a islands_disconnected
  have p3: "findPath (run_ops islands_ops) (0, 0) (5, 5) = []" by simp
  show ?thesis using a p1 p2 p3 islands_disconnected by blast
qed


subsection \<open>Determinism and the tie-break\<close>

lemma lowestF_scan_from:
  "lowestF_scan (Some c) nodes = Some u \<Longrightarrow>
     (u = c \<and> (\<forall>n \<in> set nodes. f c \<le> f n)) \<or>
     (\<exists>pre post. nodes = pre @ u # post \<and> f u < f c \<and>
        (\<forall>n \<in> set pre. f u < f n) \<and> (\<forall>n \<in> set post. f u \<le> f n))"
proof (induction nodes arbitrary: c)
  case Nil
  then show ?case by simp
next
  case (Cons node rest)
  show ?case
  proof (cases "f node < f c")
    case True
    with Cons.prems have "lowestF_scan (Some node) rest = Some u" by simp
    from Cons.IH[OF this] show ?thesis
    proof (elim disjE conjE exE)
      assume "u = node" "\<forall>n \<in> set rest. f node \<le> f n"
      then have "node # rest = [] @ u # rest \<and> f u < f c \<and>
          (\<forall>n \<in> set []. f u < f n) \<and> (\<forall>n \<in> set rest. f u \<le> f n)"
        using True by simp
      then show ?thesis by blast
    next
      fix pre post
      assume "rest = pre @ u # post" "f u < f node"
        "\<forall>n \<in> set pre. f u < f n" "\<forall>n \<in> set post. f u \<le> f n"
      then have "node # rest = (node # pre) @ u # post \<and> f u < f c \<and>
          (\<forall>n \<in> set (node # pre). f u < f n) \<and> (\<forall>n \<in> set post. f u \<le> f n)"
        using True by simp
      then show ?thesis by blast
    qed
  next
    case False
    with Cons.prems have "lowestF_scan (Some c) rest = Some u" by simp
    from Cons.IH[OF this] show ?thesis
    proof (elim disjE conjE exE)
      assume "u = c" "\<forall>n \<in> set rest. f c \<le> f n"
      then show ?thesis using False by simp
    next
      fix pre post
      assume "rest = pre @ u # post" "f u < f c"
        "\<forall>n \<in> set pre. f u < f n" "\<forall>n \<in> set post. f u \<le> f n"
      then have "node # rest = (node # pre) @ u # post \<and> f u < f c \<and>
          (\<forall>n \<in> set (node # pre). f u < f n) \<and> (\<forall>n \<in> set post. f u \<le> f n)"
        using False by simp
      then show ?thesis by blast
    qed
  qed
qed

lemma lowestF_scan_first:
  assumes "openSet \<noteq> []"
  shows "\<exists>pre u post. openSet = pre @ u # post \<and> lowestF_scan None openSet = Some u \<and>
           (\<forall>n \<in> set pre. f u < f n) \<and> (\<forall>n \<in> set post. f u \<le> f n)"
proof -
  from assms obtain node rest where o: "openSet = node # rest" by (cases openSet) auto
  obtain u where u: "lowestF_scan (Some node) rest = Some u"
    using lowestF_scan_Some[of rest "Some node"] by auto
  then have sel: "lowestF_scan None openSet = Some u" by (simp add: o)
  from lowestF_scan_from[OF u] show ?thesis
  proof (elim disjE conjE exE)
    assume "u = node" "\<forall>n \<in> set rest. f node \<le> f n"
    then have "openSet = [] @ u # rest \<and> lowestF_scan None openSet = Some u \<and>
           (\<forall>n \<in> set []. f u < f n) \<and> (\<forall>n \<in> set rest. f u \<le> f n)"
      using o sel by simp
    then show ?thesis by blast
  next
    fix pre post
    assume "rest = pre @ u # post" "f u < f node"
      "\<forall>n \<in> set pre. f u < f n" "\<forall>n \<in> set post. f u \<le> f n"
    then have "openSet = (node # pre) @ u # post \<and> lowestF_scan None openSet = Some u \<and>
           (\<forall>n \<in> set (node # pre). f u < f n) \<and> (\<forall>n \<in> set post. f u \<le> f n)"
      using o sel by simp
    then show ?thesis by blast
  qed
qed

text \<open>
  Claim C9. \<^verbatim>\<open>findPath\<close> reads nothing but the road, the start and the end, the road
  taken with the insertion order of its map and of its neighbour sets, which is what the
  construction history leaves behind: equal inputs give equal paths. The one choice the
  search makes, the scan of the open set, always takes the node of lowest \<open>f\<close> that was
  inserted first.
\<close>

theorem findPath_deterministic:
  "(road1 = road2 \<and> start1 = start2 \<and> goal1 = goal2 \<longrightarrow>
      findPath road1 start1 goal1 = findPath road2 start2 goal2) \<and>
   (ops1 = ops2 \<and> start1 = start2 \<and> goal1 = goal2 \<longrightarrow>
      findPath (run_ops ops1) start1 goal1 = findPath (run_ops ops2) start2 goal2) \<and>
   (openSet \<noteq> [] \<longrightarrow>
      (\<exists>pre u post. openSet = pre @ u # post \<and> lowestF_scan None openSet = Some u \<and>
         (\<forall>n \<in> set pre. f u < f n) \<and> (\<forall>n \<in> set post. f u \<le> f n)))"
  using lowestF_scan_first[of openSet] by blast

definition square_ops :: "road_op list" where
  "square_ops = [Add 0 0, Add 1 0, Add 0 1, Add 1 1]"

definition tied_openSet :: OpenSet where
  "tied_openSet =
     [PathNode (1, 0) 1 1 2 None, PathNode (0, 1) 1 1 2 None, PathNode (5, 5) 3 0 3 None]"

theorem findPath_deterministic_witness:
  "findPath (run_ops square_ops) (0, 0) (1, 1) = [(0, 0), (1, 0), (1, 1)] \<and>
   tied_openSet \<noteq> [] \<and>
   f (tied_openSet ! 0) = f (tied_openSet ! 1) \<and>
   lowestF_scan None tied_openSet = Some (tied_openSet ! 0)"
proof -
  have p: "findPath (run_ops square_ops) (0, 0) (1, 1) = [(0, 0), (1, 0), (1, 1)]"
    unfolding square_ops_def by code_simp
  have ne: "tied_openSet \<noteq> []" by (simp add: tied_openSet_def)
  have t: "f (tied_openSet ! 0) = f (tied_openSet ! 1)" by (simp add: tied_openSet_def)
  from findPath_deterministic[of "run_ops square_ops" "run_ops square_ops" "(0, 0)" "(0, 0)"
      "(1, 1)" "(1, 1)" square_ops square_ops tied_openSet] ne
  obtain pre u post where u: "tied_openSet = pre @ u # post"
    "lowestF_scan None tied_openSet = Some u" "\<forall>n \<in> set pre. f u < f n" by blast
  have ge: "\<forall>n \<in> set tied_openSet. 2 \<le> f n" by (simp add: tied_openSet_def)
  have "pre = []"
  proof (rule ccontr)
    assume "pre \<noteq> []"
    then have "hd pre \<in> set pre" "hd pre = hd tied_openSet"
      by (simp_all add: u(1))
    with u(3) have "f u < f (hd tied_openSet)" by auto
    moreover have "f (hd tied_openSet) = 2" by (simp add: tied_openSet_def)
    moreover have "u \<in> set tied_openSet" by (subst u(1)) simp
    ultimately show False using ge by fastforce
  qed
  then have "tied_openSet ! 0 = u" by (subst u(1)) simp
  with u(2) have "lowestF_scan None tied_openSet = Some (tied_openSet ! 0)" by simp
  with p ne t show ?thesis by simp
qed

text \<open>
  The order matters: the same four cells, added in another order, give the other of the
  two shortest paths.
\<close>

lemma findPath_depends_on_history:
  "findPath (run_ops [Add 0 0, Add 1 0, Add 0 1, Add 1 1]) (0, 0) (1, 1) =
     [(0, 0), (1, 0), (1, 1)] \<and>
   findPath (run_ops [Add 0 0, Add 0 1, Add 1 0, Add 1 1]) (0, 0) (1, 1) =
     [(0, 0), (0, 1), (1, 1)]"
  by code_simp

section \<open>Destinations and the game-over test (entities/Destination, systems/GameState)\<close>

text \<open>
  A house has a grid cell and a colour; a destination has, besides, the counter of cars
  that are on their way to it. The world coordinates and the Phaser objects serve the
  rendering only. The counter is a JavaScript number that starts at 0 and changes by
  steps of one, modelled as an integer.
\<close>

record Building = GridPos +
  color :: int

type_synonym House = Building

record Destination = Building +
  waitingCars :: int

definition new_Destination :: "int \<Rightarrow> int \<Rightarrow> int \<Rightarrow> Destination" where
  "new_Destination gx gy col = \<lparr>gridX = gx, gridY = gy, color = col, waitingCars = 0\<rparr>"

definition addWaitingCar :: "Destination \<Rightarrow> Destination" where
  "addWaitingCar d = d\<lparr>waitingCars := waitingCars d + 1\<rparr>"

definition removeWaitingCar :: "Destination \<Rightarrow> Destination" where
  "removeWaitingCar d = d\<lparr>waitingCars := max 0 (waitingCars d - 1)\<rparr>"

definition getWaitingCars :: "Destination \<Rightarrow> int" where
  "getWaitingCars d = waitingCars d"

datatype counter_call = AddWaitingCar | RemoveWaitingCar

fun counter_step :: "Destination \<Rightarrow> counter_call \<Rightarrow> Destination" where
  "counter_step d AddWaitingCar = addWaitingCar d"
| "counter_step d RemoveWaitingCar = removeWaitingCar d"

definition counter_calls :: "Destination \<Rightarrow> counter_call list \<Rightarrow> Destination" where
  "counter_calls d calls = foldl counter_step d calls"

text \<open>
  \<^verbatim>\<open>GameConfig.MAX_CARS_PER_DESTINATION\<close>. The repository holds two listings of the
  configuration, with 8 and with 6; no proof below depends on the value.
\<close>

definition MAX_CARS_PER_DESTINATION :: int where
  "MAX_CARS_PER_DESTINATION = 8"

fun checkGameOver :: "Destination list \<Rightarrow> bool" where
  "checkGameOver [] = False"
| "checkGameOver (dest # rest) =
     (if getWaitingCars dest \<ge> MAX_CARS_PER_DESTINATION then True else checkGameOver rest)"

lemma counter_calls_nonneg:
  "0 \<le> waitingCars d \<Longrightarrow> 0 \<le> waitingCars (foldl counter_step d calls)"
proof (induction calls arbitrary: d)
  case Nil
  then show ?case by simp
next
  case (Cons c calls)
  have "0 \<le> waitingCars (counter_step d c)"
    using Cons.prems by (cases c) (simp_all add: addWaitingCar_def removeWaitingCar_def)
  then show ?case using Cons.IH by simp
qed

text \<open>
  Claim C4, as the code has it. After every sequence of \<^verbatim>\<open>addWaitingCar\<close> and
  \<^verbatim>\<open>removeWaitingCar\<close> calls on a new Destination the counter is not negative;
  \<^verbatim>\<open>addWaitingCar\<close> raises it by exactly 1; \<^verbatim>\<open>removeWaitingCar\<close> lowers it by exactly 1
  when it is positive and leaves it at 0 when it is 0.
\<close>

theorem waitingCars_steps:
  "0 \<le> waitingCars (counter_calls (new_Destination gx gy col) calls) \<and>
   waitingCars (addWaitingCar (counter_calls (new_Destination gx gy col) calls)) =
     waitingCars (counter_calls (new_Destination gx gy col) calls) + 1 \<and>
   waitingCars (removeWaitingCar (counter_calls (new_Destination gx gy col) calls)) =
     (if waitingCars (counter_calls (new_Destination gx gy col) calls) = 0 then 0
      else waitingCars (counter_calls (new_Destination gx gy col) calls) - 1)"
proof -
  have "0 \<le> waitingCars (counter_calls (new_Destination gx gy col) calls)"
    unfolding counter_calls_def
    by (rule counter_calls_nonneg) (simp add: new_Destination_def)
  then show ?thesis
    by (simp add: addWaitingCar_def removeWaitingCar_def)
qed

text \<open>
  The claim as stated fails on a counter that is 0: \<^verbatim>\<open>removeWaitingCar\<close> on a new
  Destination leaves the counter at 0, a change of 0 and not of -1.
\<close>

theorem waitingCars_remove_at_zero:
  "waitingCars (new_Destination 4 1 0) = 0 \<and>
   waitingCars (removeWaitingCar (new_Destination 4 1 0)) = 0 \<and>
   waitingCars (removeWaitingCar (new_Destination 4 1 0)) \<noteq>
     waitingCars (new_Destination 4 1 0) - 1"
  by (simp add: new_Destination_def removeWaitingCar_def)

text \<open>
  Claim C5. \<^verbatim>\<open>checkGameOver\<close> is true exactly when some destination's counter has
  reached \<^verbatim>\<open>MAX_CARS_PER_DESTINATION\<close>, and false when every counter is below it.
\<close>

theorem checkGameOver_iff:
  "(checkGameOver dests \<longleftrightarrow>
      (\<exists>d \<in> set dests. getWaitingCars d \<ge> MAX_CARS_PER_DESTINATION)) \<and>
   ((\<forall>d \<in> set dests. getWaitingCars d < MAX_CARS_PER_DESTINATION) \<longrightarrow>
      \<not> checkGameOver dests)"
proof -
  have "checkGameOver dests \<longleftrightarrow>
      (\<exists>d \<in> set dests. getWaitingCars d \<ge> MAX_CARS_PER_DESTINATION)"
    by (induction dests) auto
  then show ?thesis by auto
qed

theorem checkGameOver_iff_witness:
  "checkGameOver [new_Destination 4 1 0,
      (new_Destination 9 9 1)\<lparr>waitingCars := MAX_CARS_PER_DESTINATION\<rparr>] \<and>
   \<not> checkGameOver [new_Destination 4 1 0,
      (new_Destination 9 9 1)\<lparr>waitingCars := MAX_CARS_PER_DESTINATION - 1\<rparr>]"
proof -
  have a: "\<exists>d \<in> set [new_Destination 4 1 0,
      (new_Destination 9 9 1)\<lparr>waitingCars := MAX_CARS_PER_DESTINATION\<rparr>].
        getWaitingCars d \<ge> MAX_CARS_PER_DESTINATION"
    by (simp add: getWaitingCars_def)
  have b: "\<forall>d \<in> set [new_Destination 4 1 0,
      (new_Destination 9 9 1)\<lparr>waitingCars := MAX_CARS_PER_DESTINATION - 1\<rparr>].
        getWaitingCars d < MAX_CARS_PER_DESTINATION"
    by (simp add: getWaitingCars_def new_Destination_def MAX_CARS_PER_DESTINATION_def)
  show ?thesis
    using a b
      checkGameOver_iff[of "[new_Destination 4 1 0,
        (new_Destination 9 9 1)\<lparr>waitingCars := MAX_CARS_PER_DESTINATION\<rparr>]"]
      checkGameOver_iff[of "[new_Destination 4 1 0,
        (new_Destination 9 9 1)\<lparr>waitingCars := MAX_CARS_PER_DESTINATION - 1\<rparr>]"]
    by blast
qed

section \<open>Placing buildings (systems/SpawnManager)\<close>

text \<open>
  The manager's lists of houses and destinations. Its timers only decide when
  \<^verbatim>\<open>spawnHouse\<close> and \<^verbatim>\<open>spawnDestination\<close> are called.
\<close>

record SpawnManager =
  houses :: "House list"
  destinations :: "Destination list"

definition new_SpawnManager :: SpawnManager where
  "new_SpawnManager = \<lparr>houses = [], destinations = []\<rparr>"

definition GAME_WIDTH :: int where
  "GAME_WIDTH = 48"

definition GAME_HEIGHT :: int where
  "GAME_HEIGHT = 32"

definition COLORS :: "int list" where
  "COLORS = [0xff6b6b, 0x4ecdc4, 0xffe66d, 0x95e1d3]"

definition maxAttempts :: nat where
  "maxAttempts = 50"

definition isValidSpawnPosition :: "Road \<Rightarrow> SpawnManager \<Rightarrow> int \<Rightarrow> int \<Rightarrow> bool" where
  "isValidSpawnPosition road sm gx gy =
     (if hasSegment road gx gy then False
      else if list_ex (\<lambda>house. \<bar>gridX house - gx\<bar> + \<bar>gridY house - gy\<bar> < 3) (houses sm)
        then False
      else if list_ex (\<lambda>destination. \<bar>gridX destination - gx\<bar> + \<bar>gridY destination - gy\<bar> < 3)
                (destinations sm)
        then False
      else True)"

text \<open>
  Every call of \<^verbatim>\<open>Math.random()\<close> is a parameter of the model: \<open>rand k\<close> is the pair of
  numbers drawn in attempt \<open>k\<close> of one \<^verbatim>\<open>findValidSpawnPosition\<close> call. The results below
  hold for all values of the draws.
\<close>

definition candidate :: "(nat \<Rightarrow> real \<times> real) \<Rightarrow> nat \<Rightarrow> cell" where
  "candidate rand k =
     (\<lfloor>fst (rand k) * of_int GAME_WIDTH\<rfloor>, \<lfloor>snd (rand k) * of_int GAME_HEIGHT\<rfloor>)"

function spawn_attempts ::
  "Road \<Rightarrow> SpawnManager \<Rightarrow> (nat \<Rightarrow> real \<times> real) \<Rightarrow> nat \<Rightarrow> cell option" where
  "spawn_attempts road sm rand attempt =
     (if attempt < maxAttempts then
        (let c = candidate rand attempt in
         if isValidSpawnPosition road sm (fst c) (snd c) then Some c
         else spawn_attempts road sm rand (attempt + 1))
      else None)"
  by pat_completeness auto
termination
  by (relation "measure (\<lambda>(road, sm, rand, attempt). maxAttempts - attempt)") auto

definition findValidSpawnPosition ::
  "Road \<Rightarrow> SpawnManager \<Rightarrow> (nat \<Rightarrow> real \<times> real) \<Rightarrow> cell option" where
  "findValidSpawnPosition road sm rand = spawn_attempts road sm rand 0"

definition getRandomColor :: "real \<Rightarrow> int" where
  "getRandomColor r = COLORS ! nat \<lfloor>r * of_nat (length COLORS)\<rfloor>"

definition spawnHouse ::
  "Road \<Rightarrow> SpawnManager \<Rightarrow> (nat \<Rightarrow> real \<times> real) \<Rightarrow> real \<Rightarrow> SpawnManager" where
  "spawnHouse road sm rand colorDraw =
     (case findValidSpawnPosition road sm rand of
        None \<Rightarrow> sm
      | Some position \<Rightarrow>
          sm\<lparr>houses := houses sm @
            [\<lparr>gridX = fst position, gridY = snd position,
              color = getRandomColor colorDraw\<rparr>]\<rparr>)"

definition spawnDestination ::
  "Road \<Rightarrow> SpawnManager \<Rightarrow> (nat \<Rightarrow> real \<times> real) \<Rightarrow> real \<Rightarrow> real \<Rightarrow> real \<Rightarrow> SpawnManager" where
  "spawnDestination road sm rand colorDraw matchDraw houseDraw =
     (case findValidSpawnPosition road sm rand of
        None \<Rightarrow> sm
      | Some position \<Rightarrow>
          (let col = (if matchDraw < 0.7 \<and> length (houses sm) > 0
                      then Building.color
                             (houses sm ! nat \<lfloor>houseDraw * of_nat (length (houses sm))\<rfloor>)
                      else getRandomColor colorDraw)
           in sm\<lparr>destinations := destinations sm @
                [new_Destination (fst position) (snd position) col]\<rparr>))"

datatype spawn_call =
    SpawnHouse Road "nat \<Rightarrow> real \<times> real" real
  | SpawnDestination Road "nat \<Rightarrow> real \<times> real" real real real

fun spawn_step :: "SpawnManager \<Rightarrow> spawn_call \<Rightarrow> SpawnManager" where
  "spawn_step sm (SpawnHouse road rand colorDraw) = spawnHouse road sm rand colorDraw"
| "spawn_step sm (SpawnDestination road rand colorDraw matchDraw houseDraw) =
     spawnDestination road sm rand colorDraw matchDraw houseDraw"

definition run_spawns :: "spawn_call list \<Rightarrow> SpawnManager" where
  "run_spawns calls = foldl spawn_step new_SpawnManager calls"

text \<open>The cells of all buildings placed so far, and their pairwise spacing.\<close>

definition building_cells :: "SpawnManager \<Rightarrow> cell list" where
  "building_cells sm =
     map (\<lambda>b. (gridX b, gridY b)) (houses sm) @ map (\<lambda>b. (gridX b, gridY b)) (destinations sm)"

definition manhattan :: "cell \<Rightarrow> cell \<Rightarrow> int" where
  "manhattan a b = \<bar>fst a - fst b\<bar> + \<bar>snd a - snd b\<bar>"

definition spaced :: "cell list \<Rightarrow> bool" where
  "spaced cs = (\<forall>i j. i < j \<and> j < length cs \<longrightarrow> manhattan (cs ! i) (cs ! j) \<ge> 3)"

declare spawn_attempts.simps [simp del]

lemma spawn_attempts_None:
  "spawn_attempts road sm rand n = None \<longleftrightarrow>
     (\<forall>k. n \<le> k \<and> k < maxAttempts \<longrightarrow>
        \<not> isValidSpawnPosition road sm (fst (candidate rand k)) (snd (candidate rand k)))"
proof (induction road sm rand n rule: spawn_attempts.induct)
  case (1 road sm rand attempt)
  show ?case
  proof (cases "attempt < maxAttempts")
    case False
    then show ?thesis by (subst spawn_attempts.simps) auto
  next
    case True
    show ?thesis
    proof (cases "isValidSpawnPosition road sm (fst (candidate rand attempt)) (snd (candidate rand attempt))")
      case True
      with \<open>attempt < maxAttempts\<close> show ?thesis
        by (subst spawn_attempts.simps) (auto simp: Let_def)
    next
      case False
      have "(\<forall>k. attempt \<le> k \<and> k < maxAttempts \<longrightarrow>
              \<not> isValidSpawnPosition road sm (fst (candidate rand k)) (snd (candidate rand k))) \<longleftrightarrow>
            (\<forall>k. attempt + 1 \<le> k \<and> k < maxAttempts \<longrightarrow>
              \<not> isValidSpawnPosition road sm (fst (candidate rand k)) (snd (candidate rand k)))"
        using False by (metis Suc_eq_plus1 Suc_leI le_neq_implies_less Suc_leD)
      then show ?thesis
        using "1.IH"[OF True refl False] True False
        by (subst spawn_attempts.simps) (simp add: Let_def)
    qed
  qed
qed

lemma spawn_attempts_Some:
  "spawn_attempts road sm rand n = Some c \<Longrightarrow>
     \<exists>k. n \<le> k \<and> k < maxAttempts \<and> c = candidate rand k \<and>
         isValidSpawnPosition road sm (fst c) (snd c) \<and>
         (\<forall>j. n \<le> j \<and> j < k \<longrightarrow>
            \<not> isValidSpawnPosition road sm (fst (candidate rand j)) (snd (candidate rand j)))"
proof (induction road sm rand n rule: spawn_attempts.induct)
  case (1 road sm rand attempt)
  note p = "1.prems"[unfolded spawn_attempts.simps[of road sm rand attempt]]
  from p have lt: "attempt < maxAttempts" by (auto split: if_splits)
  show ?case
  proof (cases "isValidSpawnPosition road sm (fst (candidate rand attempt)) (snd (candidate rand attempt))")
    case True
    with p lt have "c = candidate rand attempt" by (simp add: Let_def)
    with True lt show ?thesis by (intro exI[of _ attempt]) auto
  next
    case False
    with p lt have "spawn_attempts road sm rand (attempt + 1) = Some c"
      by (simp add: Let_def)
    from "1.IH"[OF lt refl False this] obtain k where k: "attempt + 1 \<le> k" "k < maxAttempts"
      "c = candidate rand k" "isValidSpawnPosition road sm (fst c) (snd c)"
      "\<forall>j. attempt + 1 \<le> j \<and> j < k \<longrightarrow>
            \<not> isValidSpawnPosition road sm (fst (candidate rand j)) (snd (candidate rand j))"
      by blast
    have "\<forall>j. attempt \<le> j \<and> j < k \<longrightarrow>
            \<not> isValidSpawnPosition road sm (fst (candidate rand j)) (snd (candidate rand j))"
      using k(5) False by (metis Suc_eq_plus1 Suc_leI le_neq_implies_less)
    with k show ?thesis by (intro exI[of _ k]) auto
  qed
qed

lemma isValidSpawnPosition_iff:
  "isValidSpawnPosition road sm gx gy \<longleftrightarrow>
     \<not> hasSegment road gx gy \<and> (\<forall>b \<in> set (building_cells sm). manhattan b (gx, gy) \<ge> 3)"
  unfolding isValidSpawnPosition_def list_ex_iff building_cells_def manhattan_def
  by (simp add: ball_Un) (auto simp: not_le)

lemma spaced_Nil: "spaced []"
  by (simp add: spaced_def)

lemma spaced_insert:
  assumes "spaced (as @ bs)" and "\<forall>b \<in> set (as @ bs). manhattan b c \<ge> 3"
  shows "spaced (as @ c # bs)"
  unfolding spaced_def
proof (intro allI impI)
  fix i j assume ij: "i < j \<and> j < length (as @ c # bs)"
  let ?n = "length as"
  have sym: "\<And>a b. manhattan a b = manhattan b a" by (simp add: manhattan_def abs_minus_commute)
  have old: "\<And>i j. i < j \<Longrightarrow> j < length (as @ bs) \<Longrightarrow> manhattan ((as @ bs) ! i) ((as @ bs) ! j) \<ge> 3"
    using assms(1) by (simp add: spaced_def)
  have new: "\<And>i. i < length (as @ bs) \<Longrightarrow> manhattan ((as @ bs) ! i) c \<ge> 3"
    using assms(2) by (metis nth_mem)
  have nth: "\<And>k. (as @ c # bs) ! k =
      (if k < ?n then (as @ bs) ! k else if k = ?n then c else (as @ bs) ! (k - 1))"
    by (auto simp: nth_append nth_Cons')
  consider "j < ?n" | "j = ?n" | "i < ?n" "?n < j" | "i = ?n" "?n < j" | "?n < i"
    using ij by linarith
  then show "3 \<le> manhattan ((as @ c # bs) ! i) ((as @ c # bs) ! j)"
  proof cases
    case 1
    then show ?thesis using ij old[of i j] by (simp add: nth)
  next
    case 2
    then show ?thesis using ij new[of i] by (simp add: nth)
  next
    case 3
    then have "i < j - 1" "j - 1 < length (as @ bs)" using ij by auto
    from old[OF this] show ?thesis using 3 by (simp add: nth)
  next
    case 4
    then have "j - 1 < length (as @ bs)" using ij by auto
    from new[OF this] show ?thesis using 4 sym[of c] by (simp add: nth)
  next
    case 5
    then have "i - 1 < j - 1" "j - 1 < length (as @ bs)" using ij by auto
    from old[OF this] show ?thesis using 5 ij by (simp add: nth)
  qed
qed

lemma spaced_spawnHouse:
  assumes "spaced (building_cells sm)"
  shows "spaced (building_cells (spawnHouse road sm rand colorDraw))"
proof (cases "findValidSpawnPosition road sm rand")
  case None
  then show ?thesis using assms by (simp add: spawnHouse_def)
next
  case (Some c)
  then have "isValidSpawnPosition road sm (fst c) (snd c)"
    unfolding findValidSpawnPosition_def by (blast dest: spawn_attempts_Some)
  then have far: "\<forall>b \<in> set (building_cells sm). manhattan b c \<ge> 3"
    by (simp add: isValidSpawnPosition_iff)
  have "building_cells (spawnHouse road sm rand colorDraw) =
        map (\<lambda>b. (gridX b, gridY b)) (houses sm) @ c #
        map (\<lambda>b. (gridX b, gridY b)) (destinations sm)"
    using Some by (simp add: spawnHouse_def building_cells_def)
  then show ?thesis
    using spaced_insert[of "map (\<lambda>b. (gridX b, gridY b)) (houses sm)"
        "map (\<lambda>b. (gridX b, gridY b)) (destinations sm)" c] assms far
    by (simp add: building_cells_def)
qed

lemma spaced_spawnDestination:
  assumes "spaced (building_cells sm)"
  shows "spaced (building_cells (spawnDestination road sm rand colorDraw matchDraw houseDraw))"
proof (cases "findValidSpawnPosition road sm rand")
  case None
  then show ?thesis using assms by (simp add: spawnDestination_def)
next
  case (Some c)
  then have "isValidSpawnPosition road sm (fst c) (snd c)"
    unfolding findValidSpawnPosition_def by (blast dest: spawn_attempts_Some)
  then have far: "\<forall>b \<in> set (building_cells sm). manhattan b c \<ge> 3"
    by (simp add: isValidSpawnPosition_iff)
  have "building_cells (spawnDestination road sm rand colorDraw matchDraw houseDraw) =
        building_cells sm @ c # []"
    using Some by (simp add: spawnDestination_def building_cells_def new_Destination_def Let_def)
  then show ?thesis
    using spaced_insert[of "building_cells sm" "[]" c] assms far by simp
qed

lemma spaced_foldl:
  "spaced (building_cells sm) \<Longrightarrow> spaced (building_cells (foldl spawn_step sm calls))"
proof (induction calls arbitrary: sm)
  case Nil
  then show ?case by simp
next
  case (Cons call calls)
  have "spaced (building_cells (spawn_step sm call))"
    using Cons.prems by (cases call) (simp_all add: spaced_spawnHouse spaced_spawnDestination)
  then show ?case using Cons.IH by simp
qed

lemma spaced_run_spawns: "spaced (building_cells (run_spawns calls))"
  unfolding run_spawns_def
  by (rule spaced_foldl) (simp add: building_cells_def new_SpawnManager_def spaced_Nil)


text \<open>
  Claim C8. After any sequence of \<^verbatim>\<open>spawnHouse\<close>/\<^verbatim>\<open>spawnDestination\<close> calls on a new manager,
  every two buildings are at Manhattan distance at least 3. A further call looks at the
  candidates of attempts 0 to 49 only: when all of them fail it places nothing; otherwise
  it places the building on the first valid candidate, which is not a road cell of the
  road at that time and is at distance at least 3 from every building.
\<close>

theorem buildings_spaced_and_off_road:
  "spaced (building_cells (run_spawns calls)) \<and>
   (case findValidSpawnPosition road (run_spawns calls) rand of
      None \<Rightarrow>
        (\<forall>k < maxAttempts. \<not> isValidSpawnPosition road (run_spawns calls)
                               (fst (candidate rand k)) (snd (candidate rand k))) \<and>
        spawnHouse road (run_spawns calls) rand colorDraw = run_spawns calls \<and>
        spawnDestination road (run_spawns calls) rand colorDraw matchDraw houseDraw =
          run_spawns calls
    | Some c \<Rightarrow>
        (\<exists>k < maxAttempts. c = candidate rand k \<and>
           (\<forall>j < k. \<not> isValidSpawnPosition road (run_spawns calls)
                        (fst (candidate rand j)) (snd (candidate rand j)))) \<and>
        \<not> hasSegment road (fst c) (snd c) \<and>
        (\<forall>b \<in> set (building_cells (run_spawns calls)). manhattan b c \<ge> 3) \<and>
        building_cells (spawnHouse road (run_spawns calls) rand colorDraw) =
          map (\<lambda>b. (gridX b, gridY b)) (houses (run_spawns calls)) @ c #
          map (\<lambda>b. (gridX b, gridY b)) (destinations (run_spawns calls)) \<and>
        building_cells
          (spawnDestination road (run_spawns calls) rand colorDraw matchDraw houseDraw) =
          building_cells (run_spawns calls) @ [c])"
proof (cases "findValidSpawnPosition road (run_spawns calls) rand")
  case None
  then have "\<forall>k < maxAttempts. \<not> isValidSpawnPosition road (run_spawns calls)
                               (fst (candidate rand k)) (snd (candidate rand k))"
    unfolding findValidSpawnPosition_def spawn_attempts_None by simp
  then show ?thesis
    using None spaced_run_spawns[of calls] by (simp add: spawnHouse_def spawnDestination_def)
next
  case (Some c)
  from spawn_attempts_Some[OF Some[unfolded findValidSpawnPosition_def]]
  obtain k where k: "k < maxAttempts" "c = candidate rand k"
    "isValidSpawnPosition road (run_spawns calls) (fst c) (snd c)"
    "\<forall>j < k. \<not> isValidSpawnPosition road (run_spawns calls)
                        (fst (candidate rand j)) (snd (candidate rand j))"
    by auto
  from k(3) have v: "\<not> hasSegment road (fst c) (snd c)"
    "\<forall>b \<in> set (building_cells (run_spawns calls)). manhattan b c \<ge> 3"
    by (simp_all add: isValidSpawnPosition_iff)
  have e: "\<exists>k < maxAttempts. c = candidate rand k \<and>
           (\<forall>j < k. \<not> isValidSpawnPosition road (run_spawns calls)
                        (fst (candidate rand j)) (snd (candidate rand j)))"
    using k by blast
  have h: "building_cells (spawnHouse road (run_spawns calls) rand colorDraw) =
          map (\<lambda>b. (gridX b, gridY b)) (houses (run_spawns calls)) @ c #
          map (\<lambda>b. (gridX b, gridY b)) (destinations (run_spawns calls))"
    using Some by (simp add: spawnHouse_def building_cells_def)
  have d: "building_cells
          (spawnDestination road (run_spawns calls) rand colorDraw matchDraw houseDraw) =
          building_cells (run_spawns calls) @ [c]"
    using Some by (simp add: spawnDestination_def building_cells_def new_Destination_def Let_def)
  show ?thesis
    using Some spaced_run_spawns[of calls] e v h d by simp
qed

definition spawn_calls_example :: "spawn_call list" where
  "spawn_calls_example =
     [SpawnHouse (run_ops [Add 0 0]) (\<lambda>k. (0, 0)) 0.3,
      SpawnHouse (run_ops [Add 0 0]) (\<lambda>k. if k = 0 then (0, 0) else (1 / 2, 1 / 2)) 0.3,
      SpawnDestination (run_ops [Add 0 0])
        (\<lambda>k. if k < 2 then (1 / 2, 1 / 2) else (3 / 4, 1 / 4)) 0.9 0.5 0.1]"

lemma run_ops_single:
  "run_ops [Add 0 0] = [((0, 0), \<lparr>gridX = 0, gridY = 0, neighbors = []\<rparr>)]"
  by (simp add: run_ops_def emptyRoad_def addSegment_def Map_has_def directions_def Let_def)

lemma spawn_calls_example_cells:
  "building_cells (run_spawns spawn_calls_example) = [(24, 16), (36, 8)]"
  by (simp add: spawn_calls_example_def run_spawns_def new_SpawnManager_def spawnHouse_def
      spawnDestination_def findValidSpawnPosition_def spawn_attempts.simps candidate_def
      isValidSpawnPosition_def building_cells_def hasSegment_def Map_has_def run_ops_single
      maxAttempts_def GAME_WIDTH_def GAME_HEIGHT_def new_Destination_def Let_def)

theorem buildings_spaced_and_off_road_witness:
  "building_cells (run_spawns spawn_calls_example) = [(24, 16), (36, 8)] \<and>
   manhattan (24, 16) (36, 8) \<ge> 3 \<and>
   findValidSpawnPosition (run_ops [Add 0 0]) (run_spawns spawn_calls_example)
     (\<lambda>k. (0, 0)) = None \<and>
   spawnHouse (run_ops [Add 0 0]) (run_spawns spawn_calls_example) (\<lambda>k. (0, 0)) 0.3 =
     run_spawns spawn_calls_example"
proof -
  note t = buildings_spaced_and_off_road[where calls = spawn_calls_example
      and road = "run_ops [Add 0 0]" and rand = "\<lambda>k. (0, 0)" and colorDraw = "0.3"
      and matchDraw = 0 and houseDraw = 0]
  have c: "building_cells (run_spawns spawn_calls_example) = [(24, 16), (36, 8)]"
    by (rule spawn_calls_example_cells)
  have r: "hasSegment (run_ops [Add 0 0]) 0 0" by code_simp
  have n: "findValidSpawnPosition (run_ops [Add 0 0]) (run_spawns spawn_calls_example)
     (\<lambda>k. (0, 0)) = None"
    unfolding findValidSpawnPosition_def spawn_attempts_None
    using r by (simp add: candidate_def isValidSpawnPosition_def)
  from t have "spaced (building_cells (run_spawns spawn_calls_example))" by blast
  then have m: "manhattan (24, 16) (36, 8) \<ge> 3"
    unfolding c spaced_def by (metis One_nat_def length_Cons list.size(3) nth_Cons_0 nth_Cons_Suc zero_less_one lessI)
  from t n have "spawnHouse (run_ops [Add 0 0]) (run_spawns spawn_calls_example) (\<lambda>k. (0, 0)) 0.3 =
     run_spawns spawn_calls_example" by simp
  with c m n show ?thesis by blast
qed

section \<open>Cars and the per-tick update (entities/Car, systems/TrafficManager)\<close>

text \<open>
  A car's position is a pair of JavaScript numbers, modelled as reals; the branch a tick
  takes depends on the position only through the test \<^verbatim>\<open>distance < 3\<close>. The Phaser shape
  and its rotation serve the rendering only.
\<close>

record Car =
  x :: real
  y :: real
  color :: int
  targetDestination :: "cell option"
  path :: "cell list"
  currentPathIndex :: nat
  speed :: real
  isMoving :: bool
  lastX :: real
  lastY :: real

definition GRID_SIZE :: real where
  "GRID_SIZE = 25"

definition CAR_SPEED :: real where
  "CAR_SPEED = 150"

definition new_Car :: "real \<Rightarrow> real \<Rightarrow> int \<Rightarrow> Car" where
  "new_Car px py col =
     \<lparr>x = px, y = py, color = col, targetDestination = None, path = [],
      currentPathIndex = 0, speed = CAR_SPEED, isMoving = False, lastX = px, lastY = py\<rparr>"

definition setPath :: "Car \<Rightarrow> cell list \<Rightarrow> Car" where
  "setPath c p = c\<lparr>path := p, currentPathIndex := 0, isMoving := (length p > 0)\<rparr>"

text \<open>
  The straight-line distance from the car to the centre of the cell
  \<^verbatim>\<open>path[currentPathIndex]\<close>, as \<^verbatim>\<open>update\<close> computes it.
\<close>

definition targetX :: "Car \<Rightarrow> real" where
  "targetX c = of_int (fst (path c ! currentPathIndex c)) * GRID_SIZE + GRID_SIZE / 2"

definition targetY :: "Car \<Rightarrow> real" where
  "targetY c = of_int (snd (path c ! currentPathIndex c)) * GRID_SIZE + GRID_SIZE / 2"

definition distance :: "Car \<Rightarrow> real" where
  "distance c =
     (let dx = targetX c - x c; dy = targetY c - y c in sqrt (dx * dx + dy * dy))"

text \<open>\<^verbatim>\<open>Car.update(delta)\<close>: the returned flag and the car after the call.\<close>

definition Car_update :: "Car \<Rightarrow> real \<Rightarrow> bool \<times> Car" where
  "Car_update c delta =
     (if \<not> isMoving c \<or> length (path c) = 0 then (False, c)
      else if currentPathIndex c \<ge> length (path c) then (True, c\<lparr>isMoving := False\<rparr>)
      else
        let dx = targetX c - x c;
            dy = targetY c - y c
        in if distance c < 3 then
             (let c1 = c\<lparr>currentPathIndex := currentPathIndex c + 1\<rparr> in
              if currentPathIndex c1 \<ge> length (path c1) then (True, c1\<lparr>isMoving := False\<rparr>)
              else (False, c1))
           else
             (let moveDistance = (speed c * delta) / 1000;
                  moveX = (dx / distance c) * moveDistance;
                  moveY = (dy / distance c) * moveDistance
              in (False, c\<lparr>lastX := x c, lastY := y c, x := x c + moveX, y := y c + moveY\<rparr>)))"

text \<open>
  \<^verbatim>\<open>findDestinationForCar\<close> returns the first destination at the car's target cell; the
  model returns its index, since the caller mutates that object in the list.
\<close>

fun findIndex :: "('a \<Rightarrow> bool) \<Rightarrow> 'a list \<Rightarrow> nat option" where
  "findIndex P [] = None"
| "findIndex P (a # as) = (if P a then Some 0 else map_option Suc (findIndex P as))"

definition findDestinationForCar :: "Car \<Rightarrow> Destination list \<Rightarrow> nat option" where
  "findDestinationForCar car dests =
     (case targetDestination car of
        None \<Rightarrow> None
      | Some t \<Rightarrow> findIndex (\<lambda>dest. gridX dest = fst t \<and> gridY dest = snd t) dests)"

text \<open>
  \<^verbatim>\<open>TrafficManager.update\<close> walks the car array from its last index down to 0, so the
  tail of the list is handled before its head; a car whose update returns true has its
  destination's counter decremented and is spliced out.
\<close>

fun TrafficManager_update ::
  "Car list \<Rightarrow> real \<Rightarrow> Destination list \<Rightarrow> Car list \<times> Destination list" where
  "TrafficManager_update [] delta dests = ([], dests)"
| "TrafficManager_update (car # rest) delta dests =
     (let (rest', dests1) = TrafficManager_update rest delta dests;
          (reachedDestination, car') = Car_update car delta
      in if reachedDestination then
           (rest',
            case findDestinationForCar car' dests1 of
              None \<Rightarrow> dests1
            | Some i \<Rightarrow> dests1[i := removeWaitingCar (dests1 ! i)])
         else (car' # rest', dests1))"

text \<open>The state the defensive check of \<^verbatim>\<open>update\<close> catches.\<close>

definition overrun :: "Car \<Rightarrow> bool" where
  "overrun c = (isMoving c \<and> path c \<noteq> [] \<and> length (path c) \<le> currentPathIndex c)"

lemma Car_update_overrun:
  "overrun c \<Longrightarrow> Car_update c delta = (True, c\<lparr>isMoving := False\<rparr>)"
  by (simp add: overrun_def Car_update_def)

lemma Car_update_not_overrun:
  "\<not> fst (Car_update c delta) \<Longrightarrow> \<not> overrun (snd (Car_update c delta))"
  by (auto simp: overrun_def Car_update_def Let_def split: if_splits)

lemma TrafficManager_update_cars:
  "fst (TrafficManager_update cars delta dests) =
     map (\<lambda>c. snd (Car_update c delta)) (filter (\<lambda>c. \<not> fst (Car_update c delta)) cars)"
  by (induction cars) (auto simp: Let_def split: prod.splits)

lemma findIndex_less: "findIndex P xs = Some i \<Longrightarrow> i < length xs"
  by (induction xs arbitrary: i) (auto split: if_splits)

lemma sum_list_removeWaitingCar:
  "i < length dests \<Longrightarrow>
     sum_list (map waitingCars (dests[i := removeWaitingCar (dests ! i)])) \<ge>
       sum_list (map waitingCars dests) - 1"
proof (induction dests arbitrary: i)
  case Nil
  then show ?case by simp
next
  case (Cons d dests)
  then show ?case
  proof (cases i)
    case 0
    then show ?thesis by (simp add: removeWaitingCar_def)
  next
    case (Suc j)
    with Cons.prems have "j < length dests" by simp
    from Cons.IH[OF this] show ?thesis by (simp add: Suc)
  qed
qed

lemma findDestinationForCar_less:
  "findDestinationForCar car dests = Some i \<Longrightarrow> i < length dests"
  by (auto simp: findDestinationForCar_def findIndex_less split: option.splits)

lemma TrafficManager_update_counters:
  "sum_list (map waitingCars (snd (TrafficManager_update cars delta dests))) \<ge>
     sum_list (map waitingCars dests) -
       int (length (filter (\<lambda>c. fst (Car_update c delta)) cars))"
proof (induction cars)
  case Nil
  then show ?case by simp
next
  case (Cons car cars)
  obtain rest' dests1 where r: "TrafficManager_update cars delta dests = (rest', dests1)"
    by (cases "TrafficManager_update cars delta dests")
  obtain reached car' where u: "Car_update car delta = (reached, car')"
    by (cases "Car_update car delta")
  from Cons.IH r have ih: "sum_list (map waitingCars dests1) \<ge>
     sum_list (map waitingCars dests) -
       int (length (filter (\<lambda>c. fst (Car_update c delta)) cars))" by simp
  show ?case
  proof (cases reached)
    case False
    then show ?thesis using ih r u by simp
  next
    case True
    show ?thesis
    proof (cases "findDestinationForCar car' dests1")
      case None
      then show ?thesis using ih r u True by simp
    next
      case (Some i)
      then have "i < length dests1" by (rule findDestinationForCar_less)
      from sum_list_removeWaitingCar[OF this] show ?thesis
        using ih r u True Some by simp
    qed
  qed
qed

text \<open>
  Claim C7, as the code has it. A car that is moving, has a non-empty path and has
  \<^verbatim>\<open>currentPathIndex >= path.length\<close> is reported as arrived by \<^verbatim>\<open>Car.update\<close>, and
  \<^verbatim>\<open>TrafficManager.update\<close> keeps exactly the cars whose update returned false: no car
  left in the list after a tick is in that state, and the destinations' counters drop, in
  total, by at most one per car retired in the tick. (A car that is not moving, or whose
  path is empty, is left as it is.)
\<close>

theorem overrun_car_retired:
  "(overrun c \<longrightarrow> Car_update c delta = (True, c\<lparr>isMoving := False\<rparr>)) \<and>
   (\<not> isMoving c \<or> path c = [] \<longrightarrow> Car_update c delta = (False, c)) \<and>
   fst (TrafficManager_update cars delta dests) =
     map (\<lambda>c. snd (Car_update c delta)) (filter (\<lambda>c. \<not> fst (Car_update c delta)) cars) \<and>
   (\<forall>c' \<in> set (fst (TrafficManager_update cars delta dests)). \<not> overrun c') \<and>
   sum_list (map waitingCars (snd (TrafficManager_update cars delta dests))) \<ge>
     sum_list (map waitingCars dests) -
       int (length (filter (\<lambda>c. fst (Car_update c delta)) cars))"
proof -
  have a: "overrun c \<longrightarrow> Car_update c delta = (True, c\<lparr>isMoving := False\<rparr>)"
    by (simp add: Car_update_overrun)
  have b: "\<not> isMoving c \<or> path c = [] \<longrightarrow> Car_update c delta = (False, c)"
    by (auto simp: Car_update_def)
  have d: "\<forall>c' \<in> set (fst (TrafficManager_update cars delta dests)). \<not> overrun c'"
    unfolding TrafficManager_update_cars using Car_update_not_overrun by auto
  show ?thesis
    using a b d TrafficManager_update_cars[of cars delta dests]
      TrafficManager_update_counters[where cars=cars and delta=delta and dests=dests]
    by blast
qed

definition overrun_car :: Car where
  "overrun_car = (setPath (new_Car 12.5 12.5 0) [(0, 0)])
     \<lparr>currentPathIndex := 1, targetDestination := Some (0, 1)\<rparr>"

theorem overrun_car_retired_witness:
  "overrun overrun_car \<and>
   Car_update overrun_car 16 = (True, overrun_car\<lparr>isMoving := False\<rparr>) \<and>
   fst (TrafficManager_update [overrun_car] 16 [addWaitingCar (new_Destination 0 1 0)]) = []"
proof -
  have o: "overrun overrun_car"
    by (simp add: overrun_def overrun_car_def setPath_def new_Car_def)
  with overrun_car_retired[of overrun_car 16 "[overrun_car]" "[addWaitingCar (new_Destination 0 1 0)]"]
  show ?thesis by simp
qed

text \<open>
  The claim as stated includes a car whose path is empty. A car as its constructor
  leaves it has \<^verbatim>\<open>currentPathIndex = 0 >= path.length = 0\<close>, yet \<^verbatim>\<open>update\<close> returns false for
  it and the manager keeps it in the list, the counters untouched.
\<close>

theorem empty_path_car_survives:
  "length (path (new_Car 12.5 12.5 0)) \<le> currentPathIndex (new_Car 12.5 12.5 0) \<and>
   Car_update (new_Car 12.5 12.5 0) 16 = (False, new_Car 12.5 12.5 0) \<and>
   TrafficManager_update [new_Car 12.5 12.5 0] 16 [addWaitingCar (new_Destination 0 1 0)] =
     ([new_Car 12.5 12.5 0], [addWaitingCar (new_Destination 0 1 0)])"
  by (simp add: new_Car_def Car_update_def)


text \<open>
  Claim C6, as the code has it. For a moving car with a non-empty path and
  \<^verbatim>\<open>currentPathIndex < path.length\<close>, on a tick where the distance to the current
  waypoint is below the snap threshold 3, \<^verbatim>\<open>update\<close> advances \<^verbatim>\<open>currentPathIndex\<close> by 1,
  re-evaluates completion (it returns true and stops the car exactly when the new index
  has reached the path's length), and does not move the car in that tick.
\<close>

theorem snap_tick_advances_without_moving:
  assumes "isMoving c" and "path c \<noteq> []" and "currentPathIndex c < length (path c)"
    and "distance c < 3"
  shows "fst (Car_update c delta) = (length (path c) \<le> currentPathIndex c + 1) \<and>
         currentPathIndex (snd (Car_update c delta)) = currentPathIndex c + 1 \<and>
         isMoving (snd (Car_update c delta)) = (currentPathIndex c + 1 < length (path c)) \<and>
         path (snd (Car_update c delta)) = path c \<and>
         x (snd (Car_update c delta)) = x c \<and> y (snd (Car_update c delta)) = y c"
  using assms by (simp add: Car_update_def Let_def)

definition snap_car :: Car where
  "snap_car = setPath (new_Car 12.5 12.5 0) [(0, 0), (1, 0)]"

lemma snap_car_distance: "distance snap_car = 0"
  by (simp add: distance_def targetX_def targetY_def snap_car_def setPath_def new_Car_def
      GRID_SIZE_def)

theorem snap_tick_advances_without_moving_witness:
  "isMoving snap_car \<and> path snap_car \<noteq> [] \<and>
   currentPathIndex snap_car < length (path snap_car) \<and> distance snap_car < 3 \<and>
   fst (Car_update snap_car 16) = False \<and>
   currentPathIndex (snd (Car_update snap_car 16)) = 1 \<and>
   isMoving (snd (Car_update snap_car 16)) = True \<and>
   x (snd (Car_update snap_car 16)) = 12.5 \<and> y (snd (Car_update snap_car 16)) = 12.5"
proof -
  have h: "isMoving snap_car" "path snap_car \<noteq> []"
    "currentPathIndex snap_car < length (path snap_car)"
    by (simp_all add: snap_car_def setPath_def new_Car_def)
  have d: "distance snap_car < 3" by (simp add: snap_car_distance)
  have v: "currentPathIndex snap_car = 0" "length (path snap_car) = 2"
    "x snap_car = 12.5" "y snap_car = 12.5"
    by (simp_all add: snap_car_def setPath_def new_Car_def)
  from snap_tick_advances_without_moving[OF h d, of 16] h d v show ?thesis by simp
qed

text \<open>
  The claim as stated has the car still travel on such a tick. A car spawned on the
  centre of its first waypoint, with the next waypoint 25 pixels away and
  \<^verbatim>\<open>speed * delta / 1000 = 2.4\<close> pixels to travel in the tick, advances its index and
  stays where it is: its displacement in that tick is zero.
\<close>

theorem snap_tick_no_displacement:
  "distance snap_car < 3 \<and>
   speed snap_car * 16 / 1000 = 2.4 \<and>
   currentPathIndex (snd (Car_update snap_car 16)) = 1 \<and>
   distance (snd (Car_update snap_car 16)) = 25 \<and>
   x (snd (Car_update snap_car 16)) - x snap_car = 0 \<and>
   y (snd (Car_update snap_car 16)) - y snap_car = 0"
proof -
  have u: "Car_update snap_car 16 = (False, snap_car\<lparr>currentPathIndex := 1\<rparr>)"
    by (simp add: Car_update_def snap_car_distance Let_def)
      (simp add: snap_car_def setPath_def new_Car_def)
  have d: "distance (snap_car\<lparr>currentPathIndex := 1\<rparr>) = 25"
    by (simp add: distance_def targetX_def targetY_def snap_car_def setPath_def new_Car_def
      GRID_SIZE_def)
  have s: "speed snap_car * 16 / 1000 = 2.4"
    by (simp add: snap_car_def setPath_def new_Car_def CAR_SPEED_def)
  show ?thesis using u d s by (simp add: snap_car_distance)
qed

end
